theory Spec2Isabelle
  imports Complex_Main "HOL-Library.Monad_Syntax" "HOL-Library.AList"
begin

section \<open>Strings\<close>

text \<open>
  A JavaScript string is a sequence of UTF-16 code units. A code unit is modelled as
  a natural number and a string as a list of them, so that \<open>length\<close> and indexing count
  what \<open>String.prototype.length\<close> and \<open>s[i]\<close> count. All the characters the source
  names are in the Basic Multilingual Plane, one code unit each.
\<close>

type_synonym jchar = nat
type_synonym jstring = "jchar list"

definition js :: "string \<Rightarrow> jstring" where
  "js s = map of_char s"

subsection \<open>Character classes of the regular expressions\<close>

text \<open>The class of U+0027, U+2019, U+2018, U+201B, U+0060 and U+00B4.\<close>

definition is_apostrophe :: "jchar \<Rightarrow> bool" where
  "is_apostrophe c \<longleftrightarrow> c = 0x27 \<or> c = 0x2019 \<or> c = 0x2018 \<or> c = 0x201B \<or> c = 0x60 \<or> c = 0xB4"

text \<open>The class of U+201C, U+201D, U+201E, U+201F, U+2033 and U+2036.\<close>

definition is_dquote :: "jchar \<Rightarrow> bool" where
  "is_dquote c \<longleftrightarrow> c = 0x201C \<or> c = 0x201D \<or> c = 0x201E \<or> c = 0x201F \<or> c = 0x2033 \<or> c = 0x2036"

text \<open>The class of U+2013, U+2014 and U+2015.\<close>

definition is_dash :: "jchar \<Rightarrow> bool" where
  "is_dash c \<longleftrightarrow> c = 0x2013 \<or> c = 0x2014 \<or> c = 0x2015"

text \<open>
  The class \<open>\s\<close> of ECMAScript, which is also the set \<open>String.prototype.trim\<close> strips:
  WhiteSpace (TAB, VT, FF, SP, NBSP, ZWNBSP and the category Zs) and LineTerminator
  (LF, CR, LS, PS).
\<close>

definition is_line_terminator :: "jchar \<Rightarrow> bool" where
  "is_line_terminator c \<longleftrightarrow> c = 0x0A \<or> c = 0x0D \<or> c = 0x2028 \<or> c = 0x2029"

definition is_ws :: "jchar \<Rightarrow> bool" where
  "is_ws c \<longleftrightarrow> c = 0x09 \<or> c = 0x0B \<or> c = 0x0C \<or> c = 0x20 \<or> c = 0xA0 \<or> c = 0x1680
     \<or> (0x2000 \<le> c \<and> c \<le> 0x200A) \<or> c = 0x202F \<or> c = 0x205F \<or> c = 0x3000 \<or> c = 0xFEFF
     \<or> is_line_terminator c"

text \<open>The class \<open>\w\<close>: \<open>[A-Za-z0-9_]\<close>.\<close>

definition is_word :: "jchar \<Rightarrow> bool" where
  "is_word c \<longleftrightarrow> (0x41 \<le> c \<and> c \<le> 0x5A) \<or> (0x61 \<le> c \<and> c \<le> 0x7A) \<or> (0x30 \<le> c \<and> c \<le> 0x39) \<or> c = 0x5F"

subsection \<open>The replacements of \<open>normalizeText\<close>\<close>

text \<open>\<open>s.replace(/[class]/g, r)\<close> for a one-character replacement \<open>r\<close>.\<close>

definition replace_class :: "(jchar \<Rightarrow> bool) \<Rightarrow> jchar \<Rightarrow> jstring \<Rightarrow> jstring" where
  "replace_class P r s = map (\<lambda>c. if P c then r else c) s"

text \<open>\<open>s.replace(/\s+/g, ' ')\<close>: every maximal run of white space becomes one space.\<close>

function collapse_ws :: "jstring \<Rightarrow> jstring" where
  "collapse_ws [] = []"
| "collapse_ws (c # cs) =
     (if is_ws c then 0x20 # collapse_ws (dropWhile is_ws cs) else c # collapse_ws cs)"
  by pat_completeness auto
termination
  by (relation "measure length") (auto simp: less_Suc_eq_le length_dropWhile_le)

text \<open>
  The replacement whose pattern is written U+2000, hyphen-minus, U+200A between the
  slashes. Outside square brackets that is not a range: the pattern matches these three
  code units in a row.
\<close>

fun replace_unicode_spaces :: "jstring \<Rightarrow> jstring" where
  "replace_unicode_spaces (a # b # c # cs) =
     (if a = 0x2000 \<and> b = 0x2D \<and> c = 0x200A then 0x20 # replace_unicode_spaces cs
      else a # replace_unicode_spaces (b # c # cs))"
| "replace_unicode_spaces cs = cs"

text \<open>\<open>s.trim()\<close>.\<close>

definition trim :: "jstring \<Rightarrow> jstring" where
  "trim s = rev (dropWhile is_ws (rev (dropWhile is_ws s)))"

text \<open>The six steps of \<open>normalizeText\<close>, in the order of the source.\<close>

definition normalizeText :: "jstring \<Rightarrow> jstring" where
  "normalizeText text =
     trim (replace_unicode_spaces (replace_class (\<lambda>c. c = 0xA0) 0x20 (collapse_ws
       (replace_class is_dash 0x2D (replace_class is_dquote 0x22
         (replace_class is_apostrophe 0x27 text))))))"

text \<open>The third search variant: the apostrophe class alone is replaced.\<close>

definition standardizeApostrophes :: "jstring \<Rightarrow> jstring" where
  "standardizeApostrophes text = replace_class is_apostrophe 0x27 text"


section \<open>Numbers\<close>

text \<open>
  A number of the source is an IEEE double. The indices of a document are whole numbers
  and the model keeps them as integers. A sum or a difference of the source is rounded
  to the nearest double, ties to even: \<open>round_double\<close> is that rounding on the integers.
  It changes nothing up to \<open>2 ^ 53\<close> in magnitude; above, a double carries 53
  significant bits. (The overflow to infinity, beyond \<open>2 ^ 1024\<close>, is not modelled.)
  Comparisons, \<open>Math.max\<close> and \<open>Math.min\<close> are exact. Lengths of strings and arrays and
  positions in them stay far below \<open>2 ^ 53\<close>, so sums of them are written with the
  exact operations.
\<close>

function bit_length :: "nat \<Rightarrow> nat" where
  "bit_length n = (if n = 0 then 0 else Suc (bit_length (n div 2)))"
  by pat_completeness auto
termination
  by (relation "measure id") auto

declare bit_length.simps [simp del]

definition round_double :: "int \<Rightarrow> int" where
  "round_double x =
     (if \<bar>x\<bar> \<le> 2 ^ 53 then x
      else let e = bit_length (nat \<bar>x\<bar>) - 53;
               q = \<bar>x\<bar> div 2 ^ e;
               r = \<bar>x\<bar> mod 2 ^ e;
               m = (if 2 * r > 2 ^ e \<or> (2 * r = 2 ^ e \<and> odd q) then q + 1 else q)
           in sgn x * (m * 2 ^ e))"

definition js_add :: "int \<Rightarrow> int \<Rightarrow> int" where
  "js_add a b = round_double (a + b)"

definition js_sub :: "int \<Rightarrow> int \<Rightarrow> int" where
  "js_sub a b = round_double (a - b)"

section \<open>Documents\<close>

text \<open>
  The structured content the Docs API returns, with the fields the two request masks ask
  for. A field that may be absent (\<open>undefined\<close>) is an \<open>option\<close>. The source reads the
  tree dynamically, so one element may carry a paragraph and a table at once.
\<close>

datatype TextRun = TextRun (content: "jstring option")

datatype ParagraphElement =
  ParagraphElement (pe_startIndex: "int option") (pe_endIndex: "int option")
    (textRun: "TextRun option")

datatype Paragraph = Paragraph (elements: "ParagraphElement list option")

datatype StructuralElement =
  StructuralElement (el_startIndex: "int option") (el_endIndex: "int option")
    (el_paragraph: "Paragraph option") (el_table: "Table option")
and Table = Table (tableRows: "TableRow list option")
and TableRow = TableRow (tableCells: "TableCell list option")
and TableCell = TableCell (cell_content: "StructuralElement list option")

record TextSegment =
  segText :: jstring
  segStart :: int
  segEnd :: int

record CharMapping =
  segmentIndex :: nat
  charIndex :: nat
  originalIndex :: int

record MatchRange =
  startIndex :: int
  endIndex :: int

subsection \<open>Segment extraction\<close>

text \<open>
  The inner loop over \<open>element.paragraph.elements\<close>: a text run is kept when its content
  is truthy (present and not the empty string) and both indices are defined.
\<close>

fun paragraphSegments :: "ParagraphElement list \<Rightarrow> TextSegment list" where
  "paragraphSegments [] = []"
| "paragraphSegments (pe # pes) =
     (case (textRun pe, pe_startIndex pe, pe_endIndex pe) of
        (Some (TextRun (Some c)), Some s, Some e) \<Rightarrow>
          (if c \<noteq> [] then [\<lparr>segText = c, segStart = s, segEnd = e\<rparr>] else [])
      | _ \<Rightarrow> [])
     @ paragraphSegments pes"

text \<open>
  \<open>extractTextFromContent\<close> pushes to \<open>textSegments\<close> in traversal order; the model
  returns what one call pushes. The loops over rows and cells are the two auxiliary
  functions.
\<close>

fun extractTextFromContent :: "StructuralElement list \<Rightarrow> TextSegment list"
  and extractTextFromRows :: "TableRow list \<Rightarrow> TextSegment list"
  and extractTextFromCells :: "TableCell list \<Rightarrow> TextSegment list"
where
  "extractTextFromContent [] = []"
| "extractTextFromContent (StructuralElement si ei par tab # rest) =
     (case par of Some (Paragraph (Some pes)) \<Rightarrow> paragraphSegments pes | _ \<Rightarrow> [])
     @ (case tab of Some (Table (Some rows)) \<Rightarrow> extractTextFromRows rows | _ \<Rightarrow> [])
     @ extractTextFromContent rest"
| "extractTextFromRows [] = []"
| "extractTextFromRows (TableRow cells # rows) =
     (case cells of Some cs \<Rightarrow> extractTextFromCells cs | None \<Rightarrow> [])
     @ extractTextFromRows rows"
| "extractTextFromCells [] = []"
| "extractTextFromCells (TableCell c # cells) =
     (case c of Some cont \<Rightarrow> extractTextFromContent cont | None \<Rightarrow> [])
     @ extractTextFromCells cells"

text \<open>
  \<open>textSegments.sort((a, b) => a.startIndex - b.startIndex)\<close>: \<open>Array.prototype.sort\<close>
  is stable, as is the insertion sort \<open>sort_key\<close>. The comparator uses the sign of the
  difference only, and rounding keeps the sign of a difference.
\<close>

definition sortedSegments :: "StructuralElement list \<Rightarrow> TextSegment list" where
  "sortedSegments body_content = sort_key segStart (extractTextFromContent body_content)"

subsection \<open>Flattening\<close>

definition buildFullText :: "TextSegment list \<Rightarrow> jstring" where
  "buildFullText textSegments = concat (map segText textSegments)"

fun buildCharToSegmentMap :: "nat \<Rightarrow> TextSegment list \<Rightarrow> CharMapping list" where
  "buildCharToSegmentMap segIndex [] = []"
| "buildCharToSegmentMap segIndex (segment # rest) =
     map (\<lambda>ci. \<lparr>segmentIndex = segIndex, charIndex = ci,
                 originalIndex = js_add (segStart segment) (int ci)\<rparr>)
       [0..<length (segText segment)]
     @ buildCharToSegmentMap (Suc segIndex) rest"

text \<open>Reading an array at a number: \<open>undefined\<close> outside the array.\<close>

definition at_index :: "'a list \<Rightarrow> int \<Rightarrow> 'a option" where
  "at_index xs i = (if 0 \<le> i \<and> i < int (length xs) then Some (xs ! nat i) else None)"

subsection \<open>String primitives\<close>

text \<open>
  \<open>s.indexOf(pat, pos)\<close> for \<open>pos \<ge> 0\<close>: the least \<open>k\<close> from \<open>min pos (length s)\<close> on at
  which \<open>pat\<close> occurs, \<open>None\<close> for \<open>-1\<close>. The empty pattern occurs at every position up to
  \<open>length s\<close>.
\<close>

definition occurs_at :: "jstring \<Rightarrow> jstring \<Rightarrow> nat \<Rightarrow> bool" where
  "occurs_at s pat k \<longleftrightarrow> take (length pat) (drop k s) = pat"

definition indexOf :: "jstring \<Rightarrow> jstring \<Rightarrow> nat \<Rightarrow> nat option" where
  "indexOf s pat pos = find (occurs_at s pat) [min pos (length s)..<Suc (length s)]"

text \<open>\<open>s.substring(a, b)\<close>: both ends are clamped to \<open>[0, length s]\<close> and swapped if needed.\<close>

definition substring :: "jstring \<Rightarrow> int \<Rightarrow> int \<Rightarrow> jstring" where
  "substring s a b =
     (let a' = nat (min (max a 0) (int (length s)));
          b' = nat (min (max b 0) (int (length s)))
      in take (max a' b' - min a' b') (drop (min a' b') s))"

text \<open>\<open>extractTextFromRange\<close>, a loop over \<open>textSegments\<close>.\<close>

fun extractTextFromRange :: "TextSegment list \<Rightarrow> int \<Rightarrow> int \<Rightarrow> jstring" where
  "extractTextFromRange [] startIndex' endIndex' = []"
| "extractTextFromRange (segment # rest) startIndex' endIndex' =
     (if segStart segment < endIndex' \<and> segEnd segment > startIndex'
      then substring (segText segment)
             (js_sub (max (segStart segment) startIndex') (segStart segment))
             (js_sub (min (segEnd segment) endIndex') (segStart segment))
      else [])
     @ extractTextFromRange rest startIndex' endIndex'"


section \<open>The matcher\<close>

subsection \<open>Exact pass\<close>

text \<open>
  The first \<open>while (true)\<close> loop of \<open>findValidatedMatches\<close>. It leaves through \<open>break\<close>
  only, when \<open>indexOf\<close> answers \<open>-1\<close>; a run that never does is the value \<open>None\<close>.
\<close>

definition mappedRange :: "CharMapping list \<Rightarrow> int \<Rightarrow> int \<Rightarrow> MatchRange option" where
  "mappedRange charToSegmentMap i j =
     (case (at_index charToSegmentMap i, at_index charToSegmentMap j) of
        (Some startMapping, Some endMapping) \<Rightarrow>
          Some \<lparr>startIndex = originalIndex startMapping,
                endIndex = js_add (originalIndex endMapping) 1\<rparr>
      | _ \<Rightarrow> None)"

partial_function (option) exactLoop ::
  "jstring \<Rightarrow> CharMapping list \<Rightarrow> jstring \<Rightarrow> nat \<Rightarrow> MatchRange list \<Rightarrow> MatchRange list option"
where
  "exactLoop fullText charToSegmentMap searchText searchIndex matches =
     (case indexOf fullText searchText searchIndex of
        None \<Rightarrow> Some matches
      | Some foundIndex \<Rightarrow>
          exactLoop fullText charToSegmentMap searchText (foundIndex + 1)
            (case mappedRange charToSegmentMap (int foundIndex)
                    (int foundIndex + int (length searchText) - 1) of
               Some r \<Rightarrow> matches @ [r]
             | None \<Rightarrow> matches))"

subsection \<open>Normalized pass\<close>

text \<open>
  The two inner loops that walk the original text one character at a time: the first
  until the normalized offset \<open>foundIndex\<close> is reached, the second until the normalized
  length of the query is used up.
\<close>

function walkToFound :: "jstring \<Rightarrow> nat \<Rightarrow> nat \<Rightarrow> nat \<Rightarrow> nat" where
  "walkToFound fullText foundIndex normalizedIndex originalFoundIndex =
     (if normalizedIndex < foundIndex \<and> originalFoundIndex < length fullText
      then let normalizedChar = normalizeText [fullText ! originalFoundIndex]
           in walkToFound fullText foundIndex
                (if length normalizedChar > 0 then normalizedIndex + length normalizedChar
                 else normalizedIndex)
                (originalFoundIndex + 1)
      else originalFoundIndex)"
  by pat_completeness auto
termination
  by (relation "measure (\<lambda>(t, f, n, i). length t - i)") auto

declare walkToFound.simps [simp del]

function walkToEnd :: "jstring \<Rightarrow> int \<Rightarrow> nat \<Rightarrow> nat" where
  "walkToEnd fullText remainingNormalizedLength originalEndIndex =
     (if remainingNormalizedLength > 0 \<and> originalEndIndex < length fullText
      then let normalizedChar = normalizeText [fullText ! originalEndIndex]
           in walkToEnd fullText
                (if length normalizedChar > 0
                 then remainingNormalizedLength - int (length normalizedChar)
                 else remainingNormalizedLength)
                (originalEndIndex + 1)
      else originalEndIndex)"
  by pat_completeness auto
termination
  by (relation "measure (\<lambda>(t, r, i). length t - i)") auto

declare walkToEnd.simps [simp del]

text \<open>
  One hit of the normalized scan: the span recovered in the original text, mapped to
  document indices and kept only if its text, extracted again and normalized, is the
  normalized query.
\<close>

definition validatedRange ::
  "TextSegment list \<Rightarrow> jstring \<Rightarrow> CharMapping list \<Rightarrow> jstring \<Rightarrow> nat \<Rightarrow> MatchRange option"
where
  "validatedRange textSegments fullText charToSegmentMap normalizedSearchText foundIndex =
     (let originalFoundIndex = walkToFound fullText foundIndex 0 0;
          originalEndIndex =
            walkToEnd fullText (int (length normalizedSearchText)) originalFoundIndex
      in case mappedRange charToSegmentMap (int originalFoundIndex) (int originalEndIndex - 1) of
           Some r \<Rightarrow>
             (if normalizeText (extractTextFromRange textSegments (startIndex r) (endIndex r))
                 = normalizedSearchText
              then Some r else None)
         | None \<Rightarrow> None)"

partial_function (option) normalizedLoop ::
  "TextSegment list \<Rightarrow> jstring \<Rightarrow> CharMapping list \<Rightarrow> jstring \<Rightarrow> jstring \<Rightarrow> nat
     \<Rightarrow> MatchRange list \<Rightarrow> MatchRange list option"
where
  "normalizedLoop textSegments fullText charToSegmentMap normalizedFullText normalizedSearchText
       searchIndex matches =
     (case indexOf normalizedFullText normalizedSearchText searchIndex of
        None \<Rightarrow> Some matches
      | Some foundIndex \<Rightarrow>
          normalizedLoop textSegments fullText charToSegmentMap normalizedFullText
            normalizedSearchText (foundIndex + 1)
            (case validatedRange textSegments fullText charToSegmentMap normalizedSearchText
                    foundIndex of
               Some r \<Rightarrow> matches @ [r]
             | None \<Rightarrow> matches))"

text \<open>\<open>findValidatedMatches\<close>: the normalized pass runs only when the exact pass found nothing.\<close>

definition findValidatedMatches ::
  "TextSegment list \<Rightarrow> jstring \<Rightarrow> CharMapping list \<Rightarrow> jstring \<Rightarrow> MatchRange list option"
where
  "findValidatedMatches textSegments fullText charToSegmentMap searchText =
     do {
       matches \<leftarrow> exactLoop fullText charToSegmentMap searchText 0 [];
       if length matches = 0
       then normalizedLoop textSegments fullText charToSegmentMap (normalizeText fullText)
              (normalizeText searchText) 0 matches
       else Some matches
     }"

subsection \<open>Search variants and instance selection\<close>

definition searchVariants :: "jstring \<Rightarrow> jstring list" where
  "searchVariants textToFind =
     [textToFind, normalizeText textToFind, standardizeApostrophes textToFind]"

text \<open>
  The loop over the variants, with its \<open>break\<close>. The argument \<open>findMatches\<close> stands for
  \<open>findValidatedMatches\<close> on the document at hand.
\<close>

fun variantLoop ::
  "(jstring \<Rightarrow> MatchRange list option) \<Rightarrow> jstring list \<Rightarrow> int \<Rightarrow> MatchRange list
     \<Rightarrow> MatchRange list option"
where
  "variantLoop findMatches [] instance allMatches = Some allMatches"
| "variantLoop findMatches (searchVariant # rest) instance allMatches =
     do {
       matches \<leftarrow> findMatches searchVariant;
       let allMatches = allMatches @ matches;
       if int (length allMatches) \<ge> instance then Some allMatches
       else variantLoop findMatches rest instance allMatches
     }"

text \<open>
  \<open>Array.from(new Map(allMatches.map(m => [key, m])).values())\<close>. A \<open>Map\<close> keeps a key at the
  place of its first insertion and the value of its last one, as \<open>AList.update\<close> does on an
  association list. The key of the source is the string of the two numbers joined by a
  hyphen, which determines the pair; the pair is the key here.
\<close>

definition uniqueMatches :: "MatchRange list \<Rightarrow> MatchRange list" where
  "uniqueMatches allMatches =
     map snd (fold (\<lambda>m al. AList.update (startIndex m, endIndex m) m al) allMatches [])"

text \<open>
  The stable sort by \<open>startIndex\<close> and the choice of the requested instance. \<open>None\<close> is
  \<open>null\<close>; it also stands for the \<open>undefined\<close> that reading at \<open>instance - 1 < 0\<close> gives.
\<close>

definition selectInstance :: "MatchRange list \<Rightarrow> int \<Rightarrow> MatchRange option" where
  "selectInstance allMatches instance =
     (let sorted_unique = sort_key startIndex (uniqueMatches allMatches)
      in if int (length sorted_unique) \<ge> instance then at_index sorted_unique (instance - 1)
         else None)"

text \<open>
  The body of the \<open>try\<close> block of \<open>findTextRange\<close> after the fetch, on the content of the
  document body.
\<close>

definition searchContent :: "StructuralElement list \<Rightarrow> jstring \<Rightarrow> int \<Rightarrow> MatchRange option option" where
  "searchContent body_content textToFind instance =
     (let textSegments = sortedSegments body_content;
          fullText = buildFullText textSegments;
          charToSegmentMap = buildCharToSegmentMap 0 textSegments
      in do {
           allMatches \<leftarrow> variantLoop (findValidatedMatches textSegments fullText charToSegmentMap)
                          (searchVariants textToFind) instance [];
           Some (selectInstance allMatches instance)
         })"


section \<open>The paragraph finder\<close>

text \<open>
  \<open>findParagraphInContent\<close>, the recursive closure of \<open>getParagraphRange\<close>; the loops over
  the rows and the cells of a table are the two auxiliary functions. An element counts
  only when both its indices are defined. \<open>orElse\<close> is the early return of a result found
  in a cell: the rest of the loop is what happens when none was.
\<close>

definition orElse :: "'a option \<Rightarrow> 'a option \<Rightarrow> 'a option" where
  "orElse result later = (case result of Some r \<Rightarrow> Some r | None \<Rightarrow> later)"

fun findParagraphInContent :: "int \<Rightarrow> StructuralElement list \<Rightarrow> MatchRange option"
  and findParagraphInRows :: "int \<Rightarrow> TableRow list \<Rightarrow> MatchRange option"
  and findParagraphInCells :: "int \<Rightarrow> TableCell list \<Rightarrow> MatchRange option"
where
  "findParagraphInContent indexWithin [] = None"
| "findParagraphInContent indexWithin (StructuralElement si ei par tab # rest) =
     (case (si, ei) of
        (Some s, Some e) \<Rightarrow>
          (if indexWithin \<ge> s \<and> indexWithin < e
           then (case par of
                   Some p \<Rightarrow> Some \<lparr>startIndex = s, endIndex = e\<rparr>
                 | None \<Rightarrow>
                     orElse (case tab of
                               Some (Table (Some rows)) \<Rightarrow> findParagraphInRows indexWithin rows
                             | _ \<Rightarrow> None)
                       (findParagraphInContent indexWithin rest))
           else findParagraphInContent indexWithin rest)
      | _ \<Rightarrow> findParagraphInContent indexWithin rest)"
| "findParagraphInRows indexWithin [] = None"
| "findParagraphInRows indexWithin (TableRow cells # rows) =
     orElse (case cells of Some cs \<Rightarrow> findParagraphInCells indexWithin cs | None \<Rightarrow> None)
       (findParagraphInRows indexWithin rows)"
| "findParagraphInCells indexWithin [] = None"
| "findParagraphInCells indexWithin (TableCell c # cells) =
     orElse (case c of Some cont \<Rightarrow> findParagraphInContent indexWithin cont | None \<Rightarrow> None)
       (findParagraphInCells indexWithin cells)"

section \<open>The Docs client and the errors\<close>

text \<open>
  What the source throws: a \<open>UserError\<close> or a plain \<open>Error\<close>. The message is
  kept as the template it is built from, with the values interpolated into it.
\<close>

datatype message =
    DocumentNotFoundSearching jstring
  | PermissionDeniedSearching jstring
  | FailedToRetrieveDoc jstring
  | DocumentNotFoundParagraph jstring
  | PermissionDeniedAccessing jstring
  | FailedToFindParagraph jstring
  | InvalidRequest jstring
  | DocumentNotFound jstring
  | PermissionDenied jstring
  | GoogleApiError "int option" jstring
  | InvalidForegroundColor jstring
  | InvalidBackgroundColor jstring

datatype thrown = UserError message | Error message

text \<open>
  What a failed call of the API client throws: \<open>err_code\<close> is \<open>error.code\<close> when it is a
  number, \<open>err_message\<close> is \<open>error.message\<close>, and \<open>err_details\<close> is the rendering of
  \<open>error.response.data.error.details\<close> joined by \<open>'; '\<close>, empty when there is none.
\<close>

record ApiError =
  err_code :: "int option"
  err_message :: jstring
  err_details :: jstring

record RgbColor =
  red :: real
  green :: real
  blue :: real

datatype StyleField =
    Bold bool | Italic bool | Underline bool | Strikethrough bool
  | FontSize real | WeightedFontFamily jstring
  | ForegroundColor RgbColor | BackgroundColor RgbColor | Link jstring

text \<open>
  An \<open>updateTextStyle\<close> request: the range and the style fields set, in the order of
  \<open>fieldsToUpdate\<close>.
\<close>

datatype Request = UpdateTextStyle MatchRange "StyleField list"

datatype Response = EmptyResponse | ResponseData

text \<open>
  The client is an external service. It is modelled by its two calls over a state \<open>'w\<close>
  of the world outside: each takes the state and returns its outcome with the next state.
  \<open>documents_get\<close> returns \<open>res.data.body.content\<close>, \<open>None\<close> when the body or its content
  is missing.
\<close>

record 'w Docs =
  documents_get :: "jstring \<Rightarrow> 'w \<Rightarrow> (ApiError + StructuralElement list option) \<times> 'w"
  documents_batchUpdate :: "jstring \<Rightarrow> Request list \<Rightarrow> 'w \<Rightarrow> (ApiError + Response) \<times> 'w"

definition messageOrUnknown :: "jstring \<Rightarrow> jstring" where
  "messageOrUnknown m = (if m = [] then js ''Unknown error'' else m)"

definition js_includes :: "jstring \<Rightarrow> jstring \<Rightarrow> bool" where
  "js_includes s pat \<longleftrightarrow> indexOf s pat 0 \<noteq> None"

subsection \<open>\<open>executeBatchUpdate\<close>\<close>

definition executeBatchUpdate ::
  "'w Docs \<Rightarrow> jstring \<Rightarrow> Request list \<Rightarrow> 'w \<Rightarrow> (thrown + Response) \<times> 'w"
where
  "executeBatchUpdate docs documentId requests w =
     (if length requests = 0 then (Inr EmptyResponse, w)
      else case documents_batchUpdate docs documentId requests w of
             (Inr response, w') \<Rightarrow> (Inr response, w')
           | (Inl error, w') \<Rightarrow>
               (if err_code error = Some 400 \<and> js_includes (err_message error) (js ''Invalid requests'')
                then (Inl (UserError (InvalidRequest
                        (if err_details error \<noteq> [] then err_details error else err_message error))), w')
                else if err_code error = Some 404 then (Inl (UserError (DocumentNotFound documentId)), w')
                else if err_code error = Some 403 then (Inl (UserError (PermissionDenied documentId)), w')
                else (Inl (Error (GoogleApiError (err_code error) (err_message error))), w')))"

subsection \<open>\<open>findTextRange\<close>\<close>

text \<open>
  The outer \<open>option\<close> is \<open>None\<close> when the call never returns. Inside, \<open>Inl\<close> is what
  the \<open>catch\<close> block throws and \<open>Inr\<close> the value returned, \<open>None\<close> for \<open>null\<close>.
\<close>

definition findTextRange ::
  "'w Docs \<Rightarrow> jstring \<Rightarrow> jstring \<Rightarrow> int \<Rightarrow> 'w \<Rightarrow> ((thrown + MatchRange option) \<times> 'w) option"
where
  "findTextRange docs documentId textToFind instance w =
     (case documents_get docs documentId w of
        (Inl error, w') \<Rightarrow>
          Some (if err_code error = Some 404
                then Inl (UserError (DocumentNotFoundSearching documentId))
                else if err_code error = Some 403
                then Inl (UserError (PermissionDeniedSearching documentId))
                else Inl (Error (FailedToRetrieveDoc (messageOrUnknown (err_message error)))), w')
      | (Inr None, w') \<Rightarrow> Some (Inr None, w')
      | (Inr (Some body_content), w') \<Rightarrow>
          (case searchContent body_content textToFind instance of
             None \<Rightarrow> None
           | Some result \<Rightarrow> Some (Inr result, w')))"

subsection \<open>\<open>getParagraphRange\<close>\<close>

definition getParagraphRange ::
  "'w Docs \<Rightarrow> jstring \<Rightarrow> int \<Rightarrow> 'w \<Rightarrow> (thrown + MatchRange option) \<times> 'w"
where
  "getParagraphRange docs documentId indexWithin w =
     (case documents_get docs documentId w of
        (Inl error, w') \<Rightarrow>
          (if err_code error = Some 404
           then Inl (UserError (DocumentNotFoundParagraph documentId))
           else if err_code error = Some 403
           then Inl (UserError (PermissionDeniedAccessing documentId))
           else Inl (Error (FailedToFindParagraph (messageOrUnknown (err_message error)))), w')
      | (Inr None, w') \<Rightarrow> (Inr None, w')
      | (Inr (Some body_content), w') \<Rightarrow>
          (Inr (findParagraphInContent indexWithin body_content), w'))"

section \<open>Style requests\<close>

text \<open>
  The style arguments, with the fields \<open>buildUpdateTextStyleRequest\<close> reads. Their type
  and \<open>hexToRgbColor\<close> come from a module outside the source at hand; the colour parser is
  a parameter of the model.
\<close>

record TextStyleArgs =
  bold :: "bool option"
  italic :: "bool option"
  underline :: "bool option"
  strikethrough :: "bool option"
  fontSize :: "real option"
  fontFamily :: "jstring option"
  foregroundColor :: "jstring option"
  backgroundColor :: "jstring option"
  linkUrl :: "jstring option"

definition optField :: "('a \<Rightarrow> StyleField) \<Rightarrow> 'a option \<Rightarrow> StyleField list" where
  "optField mk v = (case v of Some x \<Rightarrow> [mk x] | None \<Rightarrow> [])"

definition buildUpdateTextStyleRequest ::
  "(jstring \<Rightarrow> RgbColor option) \<Rightarrow> int \<Rightarrow> int \<Rightarrow> TextStyleArgs \<Rightarrow> thrown + Request option"
where
  "buildUpdateTextStyleRequest hexToRgbColor startIndex' endIndex' style =
     (let plain = optField Bold (bold style) @ optField Italic (italic style)
            @ optField Underline (underline style) @ optField Strikethrough (strikethrough style)
            @ optField FontSize (fontSize style) @ optField WeightedFontFamily (fontFamily style);
          fg = (case foregroundColor style of
                  None \<Rightarrow> Inr []
                | Some h \<Rightarrow> (case hexToRgbColor h of
                               None \<Rightarrow> Inl (UserError (InvalidForegroundColor h))
                             | Some c \<Rightarrow> Inr [ForegroundColor c]));
          bg = (case backgroundColor style of
                  None \<Rightarrow> Inr []
                | Some h \<Rightarrow> (case hexToRgbColor h of
                               None \<Rightarrow> Inl (UserError (InvalidBackgroundColor h))
                             | Some c \<Rightarrow> Inr [BackgroundColor c]))
      in case fg of
           Inl e \<Rightarrow> Inl e
         | Inr f \<Rightarrow>
             (case bg of
                Inl e \<Rightarrow> Inl e
              | Inr b \<Rightarrow>
                  (let fieldsToUpdate = plain @ f @ b @ optField Link (linkUrl style)
                   in if length fieldsToUpdate = 0 then Inr None
                      else Inr (Some (UpdateTextStyle
                             \<lparr>startIndex = startIndex', endIndex = endIndex'\<rparr> fieldsToUpdate)))))"

section \<open>The apostrophe patterns\<close>

text \<open>
  A backtracking matcher for the constructs the six patterns use. A matcher maps the
  input left to the list of the inputs that may remain after it, in the order in which
  a backtracking engine tries them: greedy quantifiers try the longest match first.
\<close>

type_synonym matcher = "jstring \<Rightarrow> jstring list"

definition rx_class :: "(jchar \<Rightarrow> bool) \<Rightarrow> matcher" where
  "rx_class P s = (case s of [] \<Rightarrow> [] | c # cs \<Rightarrow> if P c then [cs] else [])"

fun rx_plus :: "(jchar \<Rightarrow> bool) \<Rightarrow> matcher" where
  "rx_plus P [] = []"
| "rx_plus P (c # cs) = (if P c then rx_plus P cs @ [cs] else [])"

definition rx_opt :: "matcher \<Rightarrow> matcher" where
  "rx_opt m s = m s @ [s]"

definition rx_seq :: "matcher \<Rightarrow> matcher \<Rightarrow> matcher" where
  "rx_seq m1 m2 s = concat (map m2 (m1 s))"

text \<open>A lower-case letter under the flag \<open>i\<close>: the letter or its capital.\<close>

definition rx_letter :: "jchar \<Rightarrow> matcher" where
  "rx_letter l = rx_class (\<lambda>c. c = l \<or> c + 32 = l)"

text \<open>
  The part of each pattern after the apostrophe class, the second group: the contraction
  suffix, then \<open>\s+\<close>, then \<open>.+\<close> (the dot matches anything but a line terminator).
\<close>

definition afterGroup :: "matcher \<Rightarrow> matcher" where
  "afterGroup suffix =
     rx_seq suffix (rx_seq (rx_plus is_ws) (rx_plus (\<lambda>c. \<not> is_line_terminator c)))"

text \<open>
  The attempts of a pattern at the start of \<open>s\<close>: \<open>(\w+)\<close>, one apostrophe, the second
  group; each success with the text of the two groups.
\<close>

definition matchHere :: "matcher \<Rightarrow> jstring \<Rightarrow> (jstring \<times> jstring) list" where
  "matchHere suffix s =
     concat (map (\<lambda>r1.
       concat (map (\<lambda>r2.
         map (\<lambda>r3. (take (length s - length r1) s, take (length r2 - length r3) r2))
           (afterGroup suffix r2))
         (rx_class is_apostrophe r1)))
       (rx_plus is_word s))"

text \<open>\<open>textToFind.match(regex)\<close>: the first success at the leftmost start that has one.\<close>

fun regexMatch :: "matcher \<Rightarrow> jstring \<Rightarrow> (jstring \<times> jstring) option" where
  "regexMatch suffix [] = None"
| "regexMatch suffix (c # cs) =
     (case matchHere suffix (c # cs) of
        m # _ \<Rightarrow> Some m
      | [] \<Rightarrow> regexMatch suffix cs)"

text \<open>The suffixes \<open>s?\<close>, \<open>re?\<close>, \<open>ll?\<close>, \<open>ve?\<close>, \<open>d?\<close>, \<open>t?\<close> of the six patterns, in their order.\<close>

definition apostrophePatterns :: "matcher list" where
  "apostrophePatterns =
     [rx_opt (rx_letter 0x73),
      rx_seq (rx_letter 0x72) (rx_opt (rx_letter 0x65)),
      rx_seq (rx_letter 0x6C) (rx_opt (rx_letter 0x6C)),
      rx_seq (rx_letter 0x76) (rx_opt (rx_letter 0x65)),
      rx_opt (rx_letter 0x64),
      rx_opt (rx_letter 0x74)]"

text \<open>The loop over the patterns up to the first that matches.\<close>

fun firstPatternMatch :: "matcher list \<Rightarrow> jstring \<Rightarrow> (jstring \<times> jstring) option" where
  "firstPatternMatch [] textToFind = None"
| "firstPatternMatch (p # ps) textToFind =
     (case regexMatch p textToFind of
        Some m \<Rightarrow> Some m
      | None \<Rightarrow> firstPatternMatch ps textToFind)"

section \<open>\<open>highlightApostrophePhrase\<close>\<close>

text \<open>
  The block the source writes three times: if the range was found, build the style
  request and, if there is one, send it. \<open>Inr True\<close> when the update was sent, \<open>Inr False\<close>
  when there was no range or no request, \<open>Inl\<close> what was thrown.
\<close>

definition highlightRange ::
  "(jstring \<Rightarrow> RgbColor option) \<Rightarrow> 'w Docs \<Rightarrow> jstring \<Rightarrow> MatchRange option \<Rightarrow> TextStyleArgs
     \<Rightarrow> 'w \<Rightarrow> (thrown + bool) \<times> 'w"
where
  "highlightRange hexToRgbColor docs documentId found styleParams w =
     (case found of
        None \<Rightarrow> (Inr False, w)
      | Some r \<Rightarrow>
          (case buildUpdateTextStyleRequest hexToRgbColor (startIndex r) (endIndex r) styleParams of
             Inl e \<Rightarrow> (Inl e, w)
           | Inr None \<Rightarrow> (Inr False, w)
           | Inr (Some request) \<Rightarrow>
               (case executeBatchUpdate docs documentId [request] w of
                  (Inl e, w') \<Rightarrow> (Inl e, w')
                | (Inr response, w') \<Rightarrow> (Inr True, w'))))"

text \<open>
  Everything thrown inside is caught and turned into \<open>false\<close> (the message written to the
  console is not modelled). The outer \<open>option\<close> is \<open>None\<close> when a search never returns.
\<close>

definition highlightApostrophePhrase ::
  "(jstring \<Rightarrow> RgbColor option) \<Rightarrow> 'w Docs \<Rightarrow> jstring \<Rightarrow> jstring \<Rightarrow> int \<Rightarrow> TextStyleArgs
     \<Rightarrow> 'w \<Rightarrow> (bool \<times> 'w) option"
where
  "highlightApostrophePhrase hexToRgbColor docs documentId textToFind instance styleParams w =
     (case firstPatternMatch apostrophePatterns textToFind of
        Some (beforeApostrophe, afterApostrophe) \<Rightarrow>
          (case findTextRange docs documentId beforeApostrophe instance w of
             None \<Rightarrow> None
           | Some (Inl e, w1) \<Rightarrow> Some (False, w1)
           | Some (Inr beforeRange, w1) \<Rightarrow>
               (case highlightRange hexToRgbColor docs documentId beforeRange styleParams w1 of
                  (Inl e, w2) \<Rightarrow> Some (False, w2)
                | (Inr sent1, w2) \<Rightarrow>
                    (case findTextRange docs documentId afterApostrophe instance w2 of
                       None \<Rightarrow> None
                     | Some (Inl e, w3) \<Rightarrow> Some (False, w3)
                     | Some (Inr afterRange, w3) \<Rightarrow>
                         (case highlightRange hexToRgbColor docs documentId afterRange
                                 styleParams w3 of
                            (Inl e, w4) \<Rightarrow> Some (False, w4)
                          | (Inr sent2, w4) \<Rightarrow>
                              (let successfulHighlights =
                                     (if sent1 then 1 else 0) + (if sent2 then (1::nat) else 0)
                               in Some (successfulHighlights \<ge> 2, w4))))))
      | None \<Rightarrow>
          (case findTextRange docs documentId textToFind instance w of
             None \<Rightarrow> None
           | Some (Inl e, w1) \<Rightarrow> Some (False, w1)
           | Some (Inr found, w1) \<Rightarrow>
               (case highlightRange hexToRgbColor docs documentId found styleParams w1 of
                  (Inl e, w2) \<Rightarrow> Some (False, w2)
                | (Inr sent, w2) \<Rightarrow> Some (sent, w2))))"

section \<open>Sample documents\<close>

text \<open>
  A client that answers every fetch with the same body and accepts every update; the
  world outside has no state of interest.
\<close>

definition fixedDocs :: "StructuralElement list \<Rightarrow> unit Docs" where
  "fixedDocs body =
     \<lparr>documents_get = (\<lambda>documentId w. (Inr (Some body), w)),
      documents_batchUpdate = (\<lambda>documentId requests w. (Inr ResponseData, w))\<rparr>"

text \<open>
  One paragraph whose two text runs are listed out of index order: \<open>def\<close> at 4 to 7
  before \<open>abc\<close> at 1 to 4.
\<close>

definition shuffledBody :: "StructuralElement list" where
  "shuffledBody =
     [StructuralElement (Some 1) (Some 7) (Some (Paragraph (Some
        [ParagraphElement (Some 4) (Some 7) (Some (TextRun (Some (js ''def'')))),
         ParagraphElement (Some 1) (Some 4) (Some (TextRun (Some (js ''abc''))))])))
        None]"

text \<open>
  One paragraph whose two text runs overlap: \<open>ab\<close> at 1 to 3 and \<open>cd\<close> at 2 to 4.
\<close>

definition overlapBody :: "StructuralElement list" where
  "overlapBody =
     [StructuralElement (Some 1) (Some 4) (Some (Paragraph (Some
        [ParagraphElement (Some 1) (Some 3) (Some (TextRun (Some (js ''ab'')))),
         ParagraphElement (Some 2) (Some 4) (Some (TextRun (Some (js ''cd''))))])))
        None]"

text \<open>A section break and one paragraph made of a single text run that starts at index 1.\<close>

definition oneParagraph :: "jstring \<Rightarrow> StructuralElement list" where
  "oneParagraph t =
     [StructuralElement None (Some 1) None None,
      StructuralElement (Some 1) (Some (1 + int (length t))) (Some (Paragraph (Some
        [ParagraphElement (Some 1) (Some (1 + int (length t))) (Some (TextRun (Some t)))])))
        None]"

text \<open>
  The words \<open>it's it's\<close>, the first with the right single quotation mark U+2019 and the
  second with the straight apostrophe, and the query \<open>it's\<close> written with U+2019.
\<close>

definition apostropheBody :: "StructuralElement list" where
  "apostropheBody =
     oneParagraph ([0x69, 0x74, 0x2019, 0x73, 0x20, 0x69, 0x74, 0x27, 0x73])"

definition curlyQuery :: jstring where
  "curlyQuery = [0x69, 0x74, 0x2019, 0x73]"

text \<open>The sentence of the scenario with two occurrences of \<open>Hello\<close>.\<close>

definition helloBody :: "StructuralElement list" where
  "helloBody = oneParagraph (js ''Hello world. Hello again.'')"

text \<open>
  The word \<open>don't\<close> written with U+2019 in the document and with the straight apostrophe
  in the query.
\<close>

definition dontBody :: "StructuralElement list" where
  "dontBody = oneParagraph [0x64, 0x6F, 0x6E, 0x2019, 0x74]"

definition dontQuery :: jstring where
  "dontQuery = [0x64, 0x6F, 0x6E, 0x27, 0x74]"

text \<open>
  A table from 2 to 20 with one cell, whose content is one paragraph from 5 to 10.
\<close>

definition tableBody :: "StructuralElement list" where
  "tableBody =
     [StructuralElement (Some 2) (Some 20) None (Some (Table (Some
        [TableRow (Some [TableCell (Some
           [StructuralElement (Some 5) (Some 10) (Some (Paragraph (Some []))) None])])])))]"

text \<open>
  The phrase \<open>that's almost\<close> with the straight apostrophe, a document with the text
  \<open>that is almost\<close>, in which both halves of the phrase occur, and one with the text
  \<open>that is\<close>, in which only the first half does.
\<close>

definition thatQuery :: jstring where
  "thatQuery = js ''that'' @ 0x27 # js ''s almost''"

definition thatBody :: "StructuralElement list" where
  "thatBody = oneParagraph (js ''that is almost'')"

definition thatIsBody :: "StructuralElement list" where
  "thatIsBody = oneParagraph (js ''that is'')"

text \<open>A style that sets bold alone, and a colour parser that accepts nothing.\<close>

definition boldStyle :: TextStyleArgs where
  "boldStyle =
     \<lparr>bold = Some True, italic = None, underline = None, strikethrough = None,
      fontSize = None, fontFamily = None, foregroundColor = None, backgroundColor = None,
      linkUrl = None\<rparr>"

definition noColors :: "jstring \<Rightarrow> RgbColor option" where
  "noColors h = None"

text \<open>A client whose every fetch fails with the given code.\<close>

definition failingDocs :: "int \<Rightarrow> unit Docs" where
  "failingDocs code =
     \<lparr>documents_get = (\<lambda>documentId w.
        (Inl \<lparr>err_code = Some code, err_message = js ''failed'', err_details = []\<rparr>, w)),
      documents_batchUpdate = (\<lambda>documentId requests w. (Inr ResponseData, w))\<rparr>"

section \<open>Auxiliary notions for the proofs\<close>

text \<open>
  A string is in white-space normal form when each white-space character in it is a
  single space followed by no other white space: what \<open>collapse_ws\<close> produces.
\<close>

fun ws_norm :: "jstring \<Rightarrow> bool" where
  "ws_norm [] = True"
| "ws_norm (c # cs) = ((is_ws c \<longrightarrow> c = 0x20 \<and> (cs = [] \<or> \<not> is_ws (hd cs))) \<and> ws_norm cs)"


text \<open>A character that the three punctuation replacements leave alone.\<close>

definition punct_norm :: "jchar \<Rightarrow> bool" where
  "punct_norm c \<longleftrightarrow> (is_apostrophe c \<longrightarrow> c = 0x27) \<and> \<not> is_dquote c \<and> \<not> is_dash c"


text \<open>
  The offsets from \<open>i\<close> on at which a pattern occurs in a string, in increasing order, and
  the ranges a scan keeps for them: what the two scanning loops compute when they stop.
\<close>

definition exactHits :: "jstring \<Rightarrow> jstring \<Rightarrow> nat \<Rightarrow> nat list" where
  "exactHits s pat i = filter (occurs_at s pat) [i..<Suc (length s)]"

definition hitRanges :: "(nat \<Rightarrow> MatchRange option) \<Rightarrow> nat list \<Rightarrow> MatchRange list" where
  "hitRanges f hits = concat (map (\<lambda>k. case f k of Some r \<Rightarrow> [r] | None \<Rightarrow> []) hits)"

text \<open>
  An index at which the double arithmetic of the source is exact, and the invariant the
  data model gives the segments handed to the flattener: each segment has such indices
  and is as long as its text, and the segments follow each other in index order without
  overlapping.
\<close>

definition safe_index :: "int \<Rightarrow> bool" where
  "safe_index i \<longleftrightarrow> 0 \<le> i \<and> i \<le> 2 ^ 53"

fun segments_ok :: "TextSegment list \<Rightarrow> bool" where
  "segments_ok [] = True"
| "segments_ok (s # ss) =
     (safe_index (segStart s) \<and> safe_index (segEnd s)
      \<and> segEnd s = segStart s + int (length (segText s)) \<and> (\<forall>t \<in> set ss. segEnd s \<le> segStart t)
      \<and> segments_ok ss)"

text \<open>
  The same invariant on the text runs as the document lists them, in any order: each run
  has exact indices and is as long as its text, and no two runs overlap.
\<close>

definition run_ok :: "TextSegment \<Rightarrow> bool" where
  "run_ok s \<longleftrightarrow> safe_index (segStart s) \<and> safe_index (segEnd s)
     \<and> segEnd s = segStart s + int (length (segText s))"

fun runs_ok :: "TextSegment list \<Rightarrow> bool" where
  "runs_ok [] = True"
| "runs_ok (s # ss) =
     (run_ok s \<and> (\<forall>t \<in> set ss. segEnd s \<le> segStart t \<or> segEnd t \<le> segStart s) \<and> runs_ok ss)"

text \<open>The document index of position \<open>k\<close> of the flattened text, as the character map records it.\<close>

fun origIndex :: "TextSegment list \<Rightarrow> nat \<Rightarrow> int" where
  "origIndex [] k = 0"
| "origIndex (s # ss) k =
     (if k < length (segText s) then segStart s + int k
      else origIndex ss (k - length (segText s)))"


text \<open>
  What one segment contributes to \<open>extractTextFromRange\<close> when the differences are exact,
  and the extraction with exact differences.
\<close>

definition piece :: "TextSegment \<Rightarrow> int \<Rightarrow> int \<Rightarrow> jstring" where
  "piece s a b =
     (if segStart s < b \<and> segEnd s > a
      then substring (segText s) (max (segStart s) a - segStart s) (min (segEnd s) b - segStart s)
      else [])"

fun extractExact :: "TextSegment list \<Rightarrow> int \<Rightarrow> int \<Rightarrow> jstring" where
  "extractExact [] a b = []"
| "extractExact (s # ss) a b = piece s a b @ extractExact ss a b"

text \<open>
  The range the exact pass records for an occurrence at offset \<open>k\<close> of a pattern of
  length \<open>n\<close>, and the offsets of all the occurrences of a pattern in a string.
\<close>

definition hitRange :: "TextSegment list \<Rightarrow> nat \<Rightarrow> nat \<Rightarrow> MatchRange" where
  "hitRange segs n k =
     \<lparr>startIndex = origIndex segs k, endIndex = origIndex segs (k + n - 1) + 1\<rparr>"

definition occurrences :: "jstring \<Rightarrow> jstring \<Rightarrow> nat list" where
  "occurrences s pat = exactHits s pat 0"

text \<open>
  The notions of the paragraph finder, written from the words of the specification. A
  range contains an index when the index lies in its half-open interval.
  \<open>enclosingParagraphs\<close> lists, in the order of the traversal, the ranges of the
  paragraph elements that contain the index, entering the cells of a table only under a
  table element that contains the index and is not itself a paragraph.
  \<open>paragraphRanges\<close> lists the ranges of all the paragraph elements of the tree that
  have both indices, in document order. A tree is well nested when each table element
  has both indices and its range holds the ranges of the paragraphs inside its cells.
\<close>

definition contains_index :: "int \<Rightarrow> MatchRange \<Rightarrow> bool" where
  "contains_index i r \<longleftrightarrow> startIndex r \<le> i \<and> i < endIndex r"

definition first_of :: "'a list \<Rightarrow> 'a option" where
  "first_of xs = (case xs of [] \<Rightarrow> None | x # _ \<Rightarrow> Some x)"

fun enclosingParagraphs :: "int \<Rightarrow> StructuralElement list \<Rightarrow> MatchRange list"
  and enclosingParagraphsRows :: "int \<Rightarrow> TableRow list \<Rightarrow> MatchRange list"
  and enclosingParagraphsCells :: "int \<Rightarrow> TableCell list \<Rightarrow> MatchRange list"
where
  "enclosingParagraphs i [] = []"
| "enclosingParagraphs i (StructuralElement si ei par tab # rest) =
     (case (si, ei) of
        (Some s, Some e) \<Rightarrow>
          (if s \<le> i \<and> i < e
           then (case par of
                   Some p \<Rightarrow> [\<lparr>startIndex = s, endIndex = e\<rparr>]
                 | None \<Rightarrow> (case tab of
                             Some (Table (Some rows)) \<Rightarrow> enclosingParagraphsRows i rows
                           | _ \<Rightarrow> []))
           else [])
      | _ \<Rightarrow> [])
     @ enclosingParagraphs i rest"
| "enclosingParagraphsRows i [] = []"
| "enclosingParagraphsRows i (TableRow cells # rows) =
     (case cells of Some cs \<Rightarrow> enclosingParagraphsCells i cs | None \<Rightarrow> [])
     @ enclosingParagraphsRows i rows"
| "enclosingParagraphsCells i [] = []"
| "enclosingParagraphsCells i (TableCell c # cells) =
     (case c of Some cont \<Rightarrow> enclosingParagraphs i cont | None \<Rightarrow> [])
     @ enclosingParagraphsCells i cells"

fun paragraphRanges :: "StructuralElement list \<Rightarrow> MatchRange list"
  and paragraphRangesRows :: "TableRow list \<Rightarrow> MatchRange list"
  and paragraphRangesCells :: "TableCell list \<Rightarrow> MatchRange list"
where
  "paragraphRanges [] = []"
| "paragraphRanges (StructuralElement si ei par tab # rest) =
     (case (si, ei, par) of
        (Some s, Some e, Some p) \<Rightarrow> [\<lparr>startIndex = s, endIndex = e\<rparr>]
      | _ \<Rightarrow> [])
     @ (case tab of Some (Table (Some rows)) \<Rightarrow> paragraphRangesRows rows | _ \<Rightarrow> [])
     @ paragraphRanges rest"
| "paragraphRangesRows [] = []"
| "paragraphRangesRows (TableRow cells # rows) =
     (case cells of Some cs \<Rightarrow> paragraphRangesCells cs | None \<Rightarrow> [])
     @ paragraphRangesRows rows"
| "paragraphRangesCells [] = []"
| "paragraphRangesCells (TableCell c # cells) =
     (case c of Some cont \<Rightarrow> paragraphRanges cont | None \<Rightarrow> [])
     @ paragraphRangesCells cells"

fun well_nested :: "StructuralElement list \<Rightarrow> bool"
  and well_nested_rows :: "TableRow list \<Rightarrow> bool"
  and well_nested_cells :: "TableCell list \<Rightarrow> bool"
where
  "well_nested [] = True"
| "well_nested (StructuralElement si ei par tab # rest) =
     ((case tab of
         Some (Table (Some rows)) \<Rightarrow>
           (case (si, ei) of
              (Some s, Some e) \<Rightarrow>
                (\<forall>r \<in> set (paragraphRangesRows rows). s \<le> startIndex r \<and> endIndex r \<le> e)
            | _ \<Rightarrow> paragraphRangesRows rows = [])
           \<and> well_nested_rows rows
       | _ \<Rightarrow> True)
      \<and> well_nested rest)"
| "well_nested_rows [] = True"
| "well_nested_rows (TableRow cells # rows) =
     ((case cells of Some cs \<Rightarrow> well_nested_cells cs | None \<Rightarrow> True) \<and> well_nested_rows rows)"
| "well_nested_cells [] = True"
| "well_nested_cells (TableCell c # cells) =
     ((case c of Some cont \<Rightarrow> well_nested cont | None \<Rightarrow> True) \<and> well_nested_cells cells)"

text \<open>
  A matcher that only consumes input: what remains after it is a suffix of what it was
  given.
\<close>

definition consuming :: "matcher \<Rightarrow> bool" where
  "consuming m \<longleftrightarrow> (\<forall>s r. r \<in> set (m s) \<longrightarrow> (\<exists>p. s = p @ r))"

section \<open>The normalizer\<close>

lemma is_ws_space: "is_ws 0x20"
  by (simp add: is_ws_def)

lemma collapse_ws_hd: "s \<noteq> [] \<Longrightarrow> collapse_ws s \<noteq> [] \<and> (is_ws (hd (collapse_ws s)) \<longleftrightarrow> is_ws (hd s))"
  by (cases s) (auto simp: is_ws_space)

lemma hd_dropWhile_not: "dropWhile P s \<noteq> [] \<Longrightarrow> \<not> P (hd (dropWhile P s))"
  by (simp add: hd_dropWhile)

lemma ws_norm_collapse_ws: "ws_norm (collapse_ws s)"
proof (induction s rule: collapse_ws.induct)
  case 1
  show ?case by simp
next
  case (2 c cs)
  show ?case
  proof (cases "is_ws c")
    case True
    have "dropWhile is_ws cs \<noteq> [] \<Longrightarrow> \<not> is_ws (hd (collapse_ws (dropWhile is_ws cs)))"
      using collapse_ws_hd [of "dropWhile is_ws cs"] hd_dropWhile_not [of is_ws cs] by simp
    moreover have "dropWhile is_ws cs = [] \<Longrightarrow> collapse_ws (dropWhile is_ws cs) = []"
      by (simp del: dropWhile_eq_Nil_conv)
    ultimately show ?thesis using True 2 by auto
  next
    case False
    then show ?thesis using 2 by simp
  qed
qed

lemma collapse_ws_id: "ws_norm s \<Longrightarrow> collapse_ws s = s"
proof (induction s)
  case Nil
  show ?case by simp
next
  case (Cons c cs)
  show ?case
  proof (cases "is_ws c")
    case True
    with Cons.prems have "dropWhile is_ws cs = cs" by (cases cs) auto
    with True Cons show ?thesis by simp
  next
    case False
    with Cons show ?thesis by simp
  qed
qed

lemma ws_norm_append: "ws_norm (xs @ ys) \<Longrightarrow> ws_norm xs \<and> ws_norm ys"
  by (induction xs) (auto simp: hd_append split: if_splits)

lemma ws_norm_dropWhile: "ws_norm s \<Longrightarrow> ws_norm (dropWhile P s)"
  using ws_norm_append [of "takeWhile P s" "dropWhile P s"] by simp

lemma ws_norm_rev_dropWhile_rev: "ws_norm s \<Longrightarrow> ws_norm (rev (dropWhile P (rev s)))"
proof -
  assume a: "ws_norm s"
  have "s = rev (dropWhile P (rev s)) @ rev (takeWhile P (rev s))"
    by (metis rev_append rev_rev_ident takeWhile_dropWhile_id)
  then show ?thesis using a ws_norm_append by metis
qed

lemma ws_norm_trim: "ws_norm s \<Longrightarrow> ws_norm (trim s)"
  by (simp add: trim_def ws_norm_dropWhile ws_norm_rev_dropWhile_rev)

lemma ws_norm_set: "ws_norm s \<Longrightarrow> c \<in> set s \<Longrightarrow> is_ws c \<Longrightarrow> c = 0x20"
  by (induction s) auto

lemma replace_class_id: "(\<And>c. c \<in> set s \<Longrightarrow> \<not> P c \<or> c = r) \<Longrightarrow> replace_class P r s = s"
  unfolding replace_class_def by (induction s) auto

lemma replace_unicode_spaces_id: "0x2000 \<notin> set s \<Longrightarrow> replace_unicode_spaces s = s"
  by (induction s rule: replace_unicode_spaces.induct) auto

lemma set_replace_unicode_spaces: "set (replace_unicode_spaces s) \<subseteq> insert 0x20 (set s)"
  by (induction s rule: replace_unicode_spaces.induct) auto

lemma set_collapse_ws: "set (collapse_ws s) \<subseteq> insert 0x20 (set s)"
proof (induction s rule: collapse_ws.induct)
  case 1
  show ?case by simp
next
  case (2 c cs)
  have "set (dropWhile is_ws cs) \<subseteq> set cs" by (simp add: set_dropWhileD subsetI)
  with 2 show ?case by (cases "is_ws c") auto
qed

lemma set_trim: "set (trim s) \<subseteq> set s"
proof
  fix x assume "x \<in> set (trim s)"
  then have "x \<in> set (dropWhile is_ws (rev (dropWhile is_ws s)))" by (simp add: trim_def)
  then have "x \<in> set (rev (dropWhile is_ws s))" by (rule set_dropWhileD)
  then have "x \<in> set (dropWhile is_ws s)" by simp
  then show "x \<in> set s" by (rule set_dropWhileD)
qed

lemma trim_trim: "trim (trim s) = trim s"
proof -
  let ?t = "trim s"
  have h: "?t \<noteq> [] \<Longrightarrow> \<not> is_ws (hd ?t)"
  proof -
    assume ne: "?t \<noteq> []"
    let ?d = "dropWhile is_ws s"
    have "?d = ?t @ rev (takeWhile is_ws (rev ?d))"
      unfolding trim_def by (metis rev_append rev_rev_ident takeWhile_dropWhile_id)
    then have "hd ?d = hd ?t" using ne by (metis hd_append2)
    moreover have "?d \<noteq> []" using ne unfolding trim_def by (auto simp del: dropWhile_eq_Nil_conv)
    ultimately show ?thesis using hd_dropWhile_not [of is_ws s] by simp
  qed
  have l: "?t \<noteq> [] \<Longrightarrow> \<not> is_ws (last ?t)"
  proof -
    assume ne: "?t \<noteq> []"
    let ?r = "dropWhile is_ws (rev (dropWhile is_ws s))"
    have "?r \<noteq> []" using ne unfolding trim_def by simp
    then have "\<not> is_ws (hd ?r)" by (rule hd_dropWhile_not)
    then show ?thesis using \<open>?r \<noteq> []\<close> unfolding trim_def by (simp add: last_rev)
  qed
  have 1: "dropWhile is_ws ?t = ?t" using h by (cases ?t) auto
  have 2: "dropWhile is_ws (rev ?t) = rev ?t"
    using l by (cases "rev ?t") (auto simp: last_rev hd_rev)
  show ?thesis
    unfolding trim_def [of ?t] 1 2 by simp
qed

lemma punct_norm_char:
  "punct_norm (if is_dash (if is_dquote (if is_apostrophe x then 0x27 else x) then 0x22 else (if is_apostrophe x then 0x27 else x)) then 0x2D else (if is_dquote (if is_apostrophe x then 0x27 else x) then 0x22 else (if is_apostrophe x then 0x27 else x)))"
  by (simp add: punct_norm_def is_apostrophe_def is_dquote_def is_dash_def)

lemma punct_norm_replaced:
  assumes "c \<in> set (replace_class is_dash 0x2D (replace_class is_dquote 0x22
      (replace_class is_apostrophe 0x27 s)))"
  shows "punct_norm c"
proof -
  from assms obtain x where "c = (if is_dash (if is_dquote (if is_apostrophe x then 0x27 else x) then 0x22 else (if is_apostrophe x then 0x27 else x)) then 0x2D else (if is_dquote (if is_apostrophe x then 0x27 else x) then 0x22 else (if is_apostrophe x then 0x27 else x)))"
    unfolding replace_class_def set_map image_iff by blast
  then show ?thesis using punct_norm_char [of x] by simp
qed

lemma punct_norm_space: "punct_norm 0x20"
  by (simp add: punct_norm_def is_apostrophe_def is_dquote_def is_dash_def)

lemma ws_norm_no_nbsp: "ws_norm s \<Longrightarrow> replace_class (\<lambda>c. c = 0xA0) 0x20 s = s"
proof (rule replace_class_id)
  fix c assume "ws_norm s" "c \<in> set s"
  then have "is_ws c \<Longrightarrow> c = 0x20" by (rule ws_norm_set)
  moreover have "is_ws 0xA0" by (simp add: is_ws_def)
  ultimately show "c \<noteq> 0xA0 \<or> c = 0x20" by auto
qed

lemma ws_norm_no_2000: "ws_norm s \<Longrightarrow> replace_unicode_spaces s = s"
proof (rule replace_unicode_spaces_id)
  assume w: "ws_norm s"
  have "is_ws 0x2000" by (simp add: is_ws_def)
  then show "0x2000 \<notin> set s" using ws_norm_set [OF w, of "0x2000"] by auto
qed

lemma normalizeText_collapsed:
  "normalizeText s = trim (collapse_ws (replace_class is_dash 0x2D (replace_class is_dquote 0x22
      (replace_class is_apostrophe 0x27 s))))"
  by (simp add: normalizeText_def ws_norm_no_nbsp ws_norm_no_2000 ws_norm_collapse_ws)

lemma ws_norm_normalizeText: "ws_norm (normalizeText s)"
  by (simp add: normalizeText_collapsed ws_norm_trim ws_norm_collapse_ws)

lemma punct_norm_normalizeText: "c \<in> set (normalizeText s) \<Longrightarrow> punct_norm c"
proof -
  assume "c \<in> set (normalizeText s)"
  then have "c \<in> insert 0x20 (set (replace_class is_dash 0x2D (replace_class is_dquote 0x22
      (replace_class is_apostrophe 0x27 s))))"
    using set_trim set_collapse_ws unfolding normalizeText_collapsed by blast
  then show ?thesis using punct_norm_space punct_norm_replaced by auto
qed

lemma normalizeText_fixed:
  assumes w: "ws_norm s" and p: "\<And>c. c \<in> set s \<Longrightarrow> punct_norm c"
  shows "normalizeText s = trim s"
proof -
  have 1: "replace_class is_apostrophe 0x27 s = s"
    by (rule replace_class_id) (use p in \<open>auto simp: punct_norm_def\<close>)
  have 2: "replace_class is_dquote 0x22 s = s"
    by (rule replace_class_id) (use p in \<open>auto simp: punct_norm_def\<close>)
  have 3: "replace_class is_dash 0x2D s = s"
    by (rule replace_class_id) (use p in \<open>auto simp: punct_norm_def\<close>)
  show ?thesis
    by (simp add: normalizeText_collapsed 1 2 3 collapse_ws_id [OF w])
qed

lemma normalizeText_idem: "normalizeText (normalizeText s) = normalizeText s"
proof -
  have "normalizeText (normalizeText s) = trim (normalizeText s)"
    by (rule normalizeText_fixed) (auto simp: ws_norm_normalizeText punct_norm_normalizeText)
  also have "\<dots> = normalizeText s"
    by (simp add: normalizeText_collapsed trim_trim)
  finally show ?thesis .
qed

lemma replace_class_idem: "replace_class P r (replace_class P r s) = replace_class P r s"
  by (induction s) (simp_all add: replace_class_def)

lemma normalizeText_standardizeApostrophes:
  "normalizeText (standardizeApostrophes s) = normalizeText s"
  unfolding normalizeText_def standardizeApostrophes_def replace_class_idem ..

section \<open>The scanning loops\<close>

lemma indexOf_None_iff:
  "indexOf s pat i = None \<longleftrightarrow> (\<forall>k. min i (length s) \<le> k \<and> k \<le> length s \<longrightarrow> \<not> occurs_at s pat k)"
  by (auto simp: indexOf_def find_None_iff)

lemma indexOf_SomeD:
  assumes "indexOf s pat i = Some k"
  shows "min i (length s) \<le> k" "k \<le> length s" "occurs_at s pat k"
    "\<And>j. min i (length s) \<le> j \<Longrightarrow> j < k \<Longrightarrow> \<not> occurs_at s pat j"
proof -
  let ?xs = "[min i (length s)..<Suc (length s)]"
  from assms obtain n where n: "n < length ?xs" "occurs_at s pat (?xs ! n)" "k = ?xs ! n"
    "\<forall>j<n. \<not> occurs_at s pat (?xs ! j)"
    unfolding indexOf_def find_Some_iff by blast
  have k: "k = min i (length s) + n" using n(1,3) by (simp del: upt_Suc)
  show "min i (length s) \<le> k" using k by simp
  show "k \<le> length s" using k n(1) by (simp del: upt_Suc)
  show "occurs_at s pat k" using n(2,3) by simp
  fix j assume j: "min i (length s) \<le> j" "j < k"
  then have "j - min i (length s) < n" using k by simp
  then have "\<not> occurs_at s pat (?xs ! (j - min i (length s)))" using n(4) by blast
  moreover have "?xs ! (j - min i (length s)) = j"
    using j k n(1) by (simp del: upt_Suc)
  ultimately show "\<not> occurs_at s pat j" by simp
qed

lemma occurs_at_bound: "pat \<noteq> [] \<Longrightarrow> occurs_at s pat k \<Longrightarrow> k + length pat \<le> length s"
proof -
  assume a: "pat \<noteq> []" "occurs_at s pat k"
  then have "length (take (length pat) (drop k s)) = length pat" by (simp add: occurs_at_def)
  then have 1: "length pat \<le> length s - k" by simp
  have 2: "0 < length pat" using a(1) by simp
  from 1 2 show ?thesis by arith
qed

lemma exactHits_Nil: "indexOf s pat i = None \<Longrightarrow> exactHits s pat i = []"
  by (auto simp: exactHits_def indexOf_None_iff filter_empty_conv simp del: upt_Suc)

lemma filter_upt_first:
  assumes "i \<le> k" "k < n" "P k" "\<And>j. i \<le> j \<Longrightarrow> j < k \<Longrightarrow> \<not> P j"
  shows "filter P [i..<n] = k # filter P [Suc k..<n]"
proof -
  have "[i..<n] = [i..<k] @ k # [Suc k..<n]"
    using assms(1,2) by (metis le_Suc_ex less_imp_le_nat upt_add_eq_append upt_conv_Cons)
  moreover have "filter P [i..<k] = []" using assms(4) by (auto simp: filter_empty_conv)
  ultimately show ?thesis using assms(3) by simp
qed

lemma exactHits_Cons:
  assumes "pat \<noteq> []" "indexOf s pat i = Some k"
  shows "exactHits s pat i = k # exactHits s pat (Suc k)" "i \<le> k" "k < length s"
proof -
  note d = indexOf_SomeD [OF assms(2)]
  have kl: "k + length pat \<le> length s" using occurs_at_bound [OF assms(1) d(3)] .
  then show "k < length s" using assms(1) by (cases pat) auto
  then show ik: "i \<le> k" using d(1) by (simp add: min_def split: if_splits)
  then have m: "min i (length s) = i" using \<open>k < length s\<close> by simp
  show "exactHits s pat i = k # exactHits s pat (Suc k)"
    unfolding exactHits_def
    by (rule filter_upt_first) (use ik \<open>k < length s\<close> d m in auto)
qed

lemma exactLoop_nonempty:
  assumes "pat \<noteq> []"
  shows "exactLoop s cmap pat i acc
    = Some (acc @ hitRanges (\<lambda>k. mappedRange cmap (int k) (int k + int (length pat) - 1))
        (exactHits s pat i))"
proof (induction "Suc (length s) - i" arbitrary: i acc rule: less_induct)
  case less
  show ?case
  proof (cases "indexOf s pat i")
    case None
    then show ?thesis
      by (subst exactLoop.simps) (simp add: exactHits_Nil hitRanges_def)
  next
    case (Some k)
    note c = exactHits_Cons [OF assms Some]
    have "Suc (length s) - Suc k < Suc (length s) - i" using c(2,3) by simp
    note ih = less [OF this]
    show ?thesis
      by (subst exactLoop.simps) (simp add: Some ih c(1) hitRanges_def split: option.split)
  qed
qed

lemma exactLoop_Some_nonempty:
  assumes "exactLoop s cmap pat i acc = Some y"
  shows "pat \<noteq> []"
proof (rule exactLoop.raw_induct [where P = "\<lambda>s cmap pat i acc y. pat \<noteq> []", OF _ assms])
  fix f :: "jstring \<Rightarrow> CharMapping list \<Rightarrow> jstring \<Rightarrow> nat \<Rightarrow> MatchRange list \<Rightarrow> MatchRange list option"
  fix s cmap pat i acc y
  assume ih: "\<And>a b c d e y. f a b c d e = Some y \<Longrightarrow> c \<noteq> []"
    and st: "(case indexOf s pat i of None \<Rightarrow> Some acc
        | Some foundIndex \<Rightarrow> f s cmap pat (foundIndex + 1)
            (case mappedRange cmap (int foundIndex) (int foundIndex + int (length pat) - 1) of
               None \<Rightarrow> acc | Some r \<Rightarrow> acc @ [r])) = Some y"
  show "pat \<noteq> []"
  proof
    assume e: "pat = []"
    have "occurs_at s [] (min i (length s))" by (simp add: occurs_at_def)
    then have "indexOf s [] i \<noteq> None" unfolding indexOf_None_iff by auto
    then obtain k where "indexOf s [] i = Some k" by auto
    with st e have "\<exists>acc'. f s cmap [] (k + 1) acc' = Some y" by (auto split: option.splits)
    then show False using ih by blast
  qed
qed

lemma exactLoop_empty_diverges: "exactLoop s cmap [] i acc = None"
  using exactLoop_Some_nonempty [of s cmap "[]" i acc] by (cases "exactLoop s cmap [] i acc") auto

lemma normalizedLoop_nonempty:
  assumes "pat \<noteq> []"
  shows "normalizedLoop segs full cmap s pat i acc
    = Some (acc @ hitRanges (validatedRange segs full cmap pat) (exactHits s pat i))"
proof (induction "Suc (length s) - i" arbitrary: i acc rule: less_induct)
  case less
  show ?case
  proof (cases "indexOf s pat i")
    case None
    then show ?thesis
      by (subst normalizedLoop.simps) (simp add: exactHits_Nil hitRanges_def)
  next
    case (Some k)
    note c = exactHits_Cons [OF assms Some]
    have "Suc (length s) - Suc k < Suc (length s) - i" using c(2,3) by simp
    note ih = less [OF this]
    show ?thesis
      by (subst normalizedLoop.simps) (simp add: Some ih c(1) hitRanges_def split: option.split)
  qed
qed

lemma normalizedLoop_Some_nonempty:
  assumes "normalizedLoop segs full cmap s pat i acc = Some y"
  shows "pat \<noteq> []"
proof (rule normalizedLoop.raw_induct
    [where P = "\<lambda>segs full cmap s pat i acc y. pat \<noteq> []", OF _ assms])
  fix f :: "TextSegment list \<Rightarrow> jstring \<Rightarrow> CharMapping list \<Rightarrow> jstring \<Rightarrow> jstring \<Rightarrow> nat
     \<Rightarrow> MatchRange list \<Rightarrow> MatchRange list option"
  fix segs full cmap s pat i acc y
  assume ih: "\<And>a b c d e g h y. f a b c d e g h = Some y \<Longrightarrow> e \<noteq> []"
    and st: "(case indexOf s pat i of None \<Rightarrow> Some acc
        | Some foundIndex \<Rightarrow> f segs full cmap s pat (foundIndex + 1)
            (case validatedRange segs full cmap pat foundIndex of
               None \<Rightarrow> acc | Some r \<Rightarrow> acc @ [r])) = Some y"
  show "pat \<noteq> []"
  proof
    assume e: "pat = []"
    have "occurs_at s [] (min i (length s))" by (simp add: occurs_at_def)
    then have "indexOf s [] i \<noteq> None" unfolding indexOf_None_iff by auto
    then obtain k where "indexOf s [] i = Some k" by auto
    with st e have "\<exists>acc'. f segs full cmap s [] (k + 1) acc' = Some y"
      by (auto split: option.splits)
    then show False using ih by blast
  qed
qed

lemma normalizedLoop_empty_diverges: "normalizedLoop segs full cmap s [] i acc = None"
  using normalizedLoop_Some_nonempty [of segs full cmap s "[]" i acc]
  by (cases "normalizedLoop segs full cmap s [] i acc") auto

section \<open>Flattening and extraction\<close>

lemma buildFullText_Cons [simp]: "buildFullText (s # ss) = segText s @ buildFullText ss"
  by (simp add: buildFullText_def)

lemma buildFullText_Nil [simp]: "buildFullText [] = []"
  by (simp add: buildFullText_def)

lemma length_buildCharToSegmentMap:
  "length (buildCharToSegmentMap n segs) = length (buildFullText segs)"
  by (induction n segs rule: buildCharToSegmentMap.induct) simp_all

lemma round_double_small: "\<bar>x\<bar> \<le> 2 ^ 53 \<Longrightarrow> round_double x = x"
  by (simp add: round_double_def)

lemma js_add_safe: "safe_index (a + b) \<Longrightarrow> js_add a b = a + b"
  unfolding js_add_def safe_index_def by (rule round_double_small) linarith

lemma js_sub_safe: "safe_index a \<Longrightarrow> safe_index b \<Longrightarrow> js_sub a b = a - b"
  unfolding js_sub_def safe_index_def by (rule round_double_small) linarith

lemma safe_index_between: "safe_index a \<Longrightarrow> safe_index c \<Longrightarrow> a \<le> b \<Longrightarrow> b \<le> c \<Longrightarrow> safe_index b"
  unfolding safe_index_def by linarith

lemma origIndex_safe:
  "segments_ok segs \<Longrightarrow> k < length (buildFullText segs) \<Longrightarrow>
   safe_index (origIndex segs k) \<and> safe_index (origIndex segs k + 1)"
proof (induction segs arbitrary: k)
  case Nil
  then show ?case by simp
next
  case (Cons s ss)
  from Cons.prems(1) have ok: "safe_index (segStart s)" "safe_index (segEnd s)"
    "segEnd s = segStart s + int (length (segText s))" "segments_ok ss" by auto
  show ?case
  proof (cases "k < length (segText s)")
    case True
    have "segStart s \<le> segStart s + int k" "segStart s + int k + 1 \<le> segEnd s"
      using True ok(3) by simp_all
    then have "safe_index (segStart s + int k)" "safe_index (segStart s + int k + 1)"
      using ok(1,2) unfolding safe_index_def by linarith+
    with True show ?thesis by simp
  next
    case False
    then have "k - length (segText s) < length (buildFullText ss)" using Cons.prems(2) by simp
    from Cons.IH [OF ok(4) this] False show ?thesis by simp
  qed
qed

lemma buildCharToSegmentMap_nth:
  "segments_ok segs \<Longrightarrow> k < length (buildFullText segs) \<Longrightarrow>
   originalIndex (buildCharToSegmentMap n segs ! k) = origIndex segs k"
proof (induction n segs arbitrary: k rule: buildCharToSegmentMap.induct)
  case (1 n)
  then show ?case by simp
next
  case (2 n s ss)
  from "2.prems"(1) have ok: "segments_ok ss" by simp
  show ?case
  proof (cases "k < length (segText s)")
    case True
    have "safe_index (origIndex (s # ss) k)"
      using origIndex_safe [OF "2.prems"] by simp
    then have "js_add (segStart s) (int k) = segStart s + int k"
      using True by (simp add: js_add_safe)
    with True show ?thesis by (simp add: nth_append del: upt_Suc)
  next
    case False
    then have "k - length (segText s) < length (buildFullText ss)" using "2.prems"(2) by simp
    from "2.IH" [OF ok this] False show ?thesis
      by (simp add: nth_append)
  qed
qed

lemma at_index_charMap:
  "segments_ok segs \<Longrightarrow> k < length (buildFullText segs) \<Longrightarrow>
   \<exists>m. at_index (buildCharToSegmentMap n segs) (int k) = Some m \<and> originalIndex m = origIndex segs k"
  by (simp add: at_index_def length_buildCharToSegmentMap buildCharToSegmentMap_nth)

lemma mappedRange_charMap:
  assumes "segments_ok segs" "1 \<le> n" "k + n \<le> length (buildFullText segs)"
  shows "mappedRange (buildCharToSegmentMap i segs) (int k) (int k + int n - 1)
    = Some \<lparr>startIndex = origIndex segs k, endIndex = origIndex segs (k + n - 1) + 1\<rparr>"
proof -
  have e: "int k + int n - 1 = int (k + n - 1)" using assms(2) by simp
  have lt: "k < length (buildFullText segs)" "k + n - 1 < length (buildFullText segs)"
    using assms(2,3) by simp_all
  have "js_add (origIndex segs (k + n - 1)) 1 = origIndex segs (k + n - 1) + 1"
    using origIndex_safe [OF assms(1) lt(2)] by (simp add: js_add_safe)
  with at_index_charMap [OF assms(1) lt(1), of i] at_index_charMap [OF assms(1) lt(2), of i]
  show ?thesis unfolding mappedRange_def e by auto
qed

lemma substring_nat:
  "i \<le> j \<Longrightarrow> j \<le> length s \<Longrightarrow> substring s (int i) (int j) = take (j - i) (drop i s)"
  by (simp add: substring_def Let_def min_def max_def)

lemma extract_Cons: "extractExact (s # ss) a b = piece s a b @ extractExact ss a b"
  by simp

lemma piece_overlap:
  assumes "segStart s < b" "segEnd s > a"
    and "max (segStart s) a = segStart s + int i" "min (segEnd s) b = segStart s + int j"
    and "i \<le> j" "j \<le> length (segText s)"
  shows "piece s a b = take (j - i) (drop i (segText s))"
proof -
  have "piece s a b = substring (segText s) (int i) (int j)"
    unfolding piece_def assms(3,4) using assms(1,2) by simp
  then show ?thesis using substring_nat [OF assms(5,6)] by simp
qed

lemma piece_disjoint: "b \<le> segStart s \<or> segEnd s \<le> a \<Longrightarrow> piece s a b = []"
  by (auto simp: piece_def)

lemma extract_none_after:
  "(\<forall>t \<in> set ss. b \<le> segStart t) \<Longrightarrow> extractExact ss a b = []"
  by (induction ss) (auto simp: piece_def)

lemma origIndex_lower:
  "(\<forall>t \<in> set ss. c \<le> segStart t) \<Longrightarrow> j < length (buildFullText ss) \<Longrightarrow> c \<le> origIndex ss j"
proof (induction ss arbitrary: j)
  case Nil
  then show ?case by simp
next
  case (Cons s ss)
  show ?case
  proof (cases "j < length (segText s)")
    case True
    with Cons.prems show ?thesis by simp
  next
    case False
    with Cons show ?thesis by simp
  qed
qed

lemma extract_prefix:
  assumes "segments_ok ss" "\<forall>t \<in> set ss. a \<le> segStart t" "1 \<le> m" "m \<le> length (buildFullText ss)"
  shows "extractExact ss a (origIndex ss (m - 1) + 1) = take m (buildFullText ss)"
  using assms
proof (induction ss arbitrary: m)
  case Nil
  then show ?case by simp
next
  case (Cons s ss)
  let ?L = "length (segText s)"
  from Cons.prems have ok: "segEnd s = segStart s + int ?L" "\<forall>t \<in> set ss. segEnd s \<le> segStart t"
    "segments_ok ss" and a: "a \<le> segStart s" by auto
  show ?case
  proof (cases "m \<le> ?L")
    case True
    let ?b = "segStart s + int m"
    have a1: "m - 1 < ?L" and a2: "int (m - 1) + 1 = int m" using True Cons.prems(3) by arith+
    have o: "origIndex (s # ss) (m - 1) + 1 = ?b"
      by (simp only: origIndex.simps a1 if_True) (use a2 in linarith)
    have rest: "extractExact ss a ?b = []"
      by (rule extract_none_after) (use ok True in auto)
    have "piece s a ?b = take (m - 0) (drop 0 (segText s))"
    proof (rule piece_overlap)
      show "segStart s < ?b" using Cons.prems(3) by linarith
      show "segEnd s > a" using a ok(1) True Cons.prems(3) by linarith
      show "max (segStart s) a = segStart s + int 0" using a by simp
      show "min (segEnd s) ?b = segStart s + int m" using ok(1) True by simp
    qed (use True in auto)
    then show ?thesis
      unfolding o extract_Cons rest using True by simp
  next
    case False
    let ?m = "m - ?L"
    have m': "1 \<le> ?m" "?m \<le> length (buildFullText ss)" using False Cons.prems(4) by simp_all
    have a1: "\<not> m - 1 < ?L" and a2: "m - 1 - ?L = ?m - 1" using False by arith+
    have o: "origIndex (s # ss) (m - 1) = origIndex ss (?m - 1)"
      by (simp only: origIndex.simps a1 if_False if_True a2)
    have lo: "segEnd s \<le> origIndex ss (?m - 1)"
      by (rule origIndex_lower) (use ok m' in auto)
    have ih: "extractExact ss a (origIndex ss (?m - 1) + 1) = take ?m (buildFullText ss)"
      by (rule Cons.IH) (use ok a m' in auto)
    have seg: "piece s a (origIndex ss (?m - 1) + 1) = segText s"
    proof (cases "?L = 0")
      case True
      then show ?thesis by (simp add: piece_def substring_def)
    next
      case False
      then have Lpos: "0 < int ?L" by simp
      have "piece s a (origIndex ss (?m - 1) + 1) = take (?L - 0) (drop 0 (segText s))"
      proof (rule piece_overlap)
        show "segStart s < origIndex ss (?m - 1) + 1" using lo ok(1) by linarith
        show "segEnd s > a" using a ok(1) Lpos by linarith
        show "max (segStart s) a = segStart s + int 0" using a by simp
        show "min (segEnd s) (origIndex ss (?m - 1) + 1) = segStart s + int ?L"
          using lo ok(1) by linarith
      qed auto
      then show ?thesis by simp
    qed
    show ?thesis
      unfolding o extract_Cons seg ih using False by simp
  qed
qed

lemma extract_roundtrip:
  assumes "segments_ok segs" "1 \<le> n" "k + n \<le> length (buildFullText segs)"
  shows "extractExact segs (origIndex segs k) (origIndex segs (k + n - 1) + 1)
    = take n (drop k (buildFullText segs))"
  using assms
proof (induction segs arbitrary: k)
  case Nil
  then show ?case by simp
next
  case (Cons s ss)
  let ?L = "length (segText s)"
  from Cons.prems have ok: "segEnd s = segStart s + int ?L" "\<forall>t \<in> set ss. segEnd s \<le> segStart t"
    "segments_ok ss" by auto
  have fl: "length (buildFullText (s # ss)) = ?L + length (buildFullText ss)" by simp
  consider (after) "?L \<le> k" | (inside) "k < ?L" "k + n \<le> ?L" | (straddle) "k < ?L" "?L < k + n"
    by linarith
  then show ?case
  proof cases
    case after
    let ?k = "k - ?L"
    have kn: "?k + n \<le> length (buildFullText ss)" using after Cons.prems(3) fl by arith
    have o1: "origIndex (s # ss) k = origIndex ss ?k" using after by simp
    have a1: "\<not> k + n - 1 < ?L" and a2: "k + n - 1 - ?L = ?k + n - 1" using after Cons.prems(2) by arith+
    have o2: "origIndex (s # ss) (k + n - 1) = origIndex ss (?k + n - 1)"
      by (simp only: origIndex.simps a1 if_False if_True a2)
    have klt: "?k < length (buildFullText ss)" using kn Cons.prems(2) by arith
    have lo: "segEnd s \<le> origIndex ss ?k"
      using origIndex_lower [OF ok(2) klt] .
    have ih: "extractExact ss (origIndex ss ?k) (origIndex ss (?k + n - 1) + 1)
      = take n (drop ?k (buildFullText ss))"
      using Cons.IH [OF ok(3) Cons.prems(2) kn] .
    have seg: "piece s (origIndex ss ?k) (origIndex ss (?k + n - 1) + 1) = []"
      by (rule piece_disjoint) (use lo in simp)
    show ?thesis unfolding o1 o2 extract_Cons seg ih using after by simp
  next
    case inside
    let ?a = "segStart s + int k" and ?b = "segStart s + int (k + n)"
    have o1: "origIndex (s # ss) k = ?a" using inside by simp
    have a1: "k + n - 1 < ?L" and a2: "int (k + n - 1) + 1 = int (k + n)" using inside Cons.prems(2) by arith+
    have o2: "origIndex (s # ss) (k + n - 1) + 1 = ?b"
      by (simp only: origIndex.simps a1 if_True) (use a2 in linarith)
    have rest: "extractExact ss ?a ?b = []"
      by (rule extract_none_after) (use ok inside in auto)
    have seg: "piece s ?a ?b = take (k + n - k) (drop k (segText s))"
    proof (rule piece_overlap)
      show "segStart s < ?b" using Cons.prems(2) by linarith
      show "segEnd s > ?a" using ok(1) inside by linarith
      show "max (segStart s) ?a = segStart s + int k" by simp
      show "min (segEnd s) ?b = segStart s + int (k + n)" using ok(1) inside by simp
    qed (use inside in auto)
    show ?thesis unfolding o1 o2 extract_Cons seg rest using inside by simp
  next
    case straddle
    let ?m = "k + n - ?L"
    let ?a = "segStart s + int k"
    have m: "1 \<le> ?m" "?m \<le> length (buildFullText ss)" using straddle Cons.prems(3) fl by arith+
    have o1: "origIndex (s # ss) k = ?a" using straddle by simp
    have a1: "\<not> k + n - 1 < ?L" and a2: "k + n - 1 - ?L = ?m - 1" using straddle by arith+
    have o2: "origIndex (s # ss) (k + n - 1) = origIndex ss (?m - 1)"
      by (simp only: origIndex.simps a1 if_False if_True a2)
    have lo: "segEnd s \<le> origIndex ss (?m - 1)"
      by (rule origIndex_lower) (use ok m in auto)
    have rest: "extractExact ss ?a (origIndex ss (?m - 1) + 1) = take ?m (buildFullText ss)"
    proof (rule extract_prefix)
      show "\<forall>t \<in> set ss. ?a \<le> segStart t"
      proof
        fix t assume "t \<in> set ss"
        then have "segEnd s \<le> segStart t" using ok(2) by blast
        then show "?a \<le> segStart t" using ok(1) straddle(1) by linarith
      qed
    qed (use ok m in auto)
    have seg: "piece s ?a (origIndex ss (?m - 1) + 1) = take (?L - k) (drop k (segText s))"
    proof (rule piece_overlap)
      show "segStart s < origIndex ss (?m - 1) + 1" using lo ok(1) by linarith
      show "segEnd s > ?a" using ok(1) straddle by linarith
      show "max (segStart s) ?a = segStart s + int k" by simp
      show "min (segEnd s) (origIndex ss (?m - 1) + 1) = segStart s + int ?L"
        using lo ok(1) by linarith
    qed (use straddle in auto)
    have e: "n - (?L - k) = ?m" using straddle by arith
    show ?thesis unfolding o1 o2 extract_Cons seg rest
      using straddle by (simp add: e)
  qed
qed

lemma extract_exact:
  "(\<forall>s \<in> set segs. safe_index (segStart s) \<and> safe_index (segEnd s)) \<Longrightarrow>
   extractTextFromRange segs a b = extractExact segs a b"
proof (induction segs)
  case Nil
  show ?case by simp
next
  case (Cons s ss)
  then have st: "safe_index (segStart s)" and en: "safe_index (segEnd s)" by simp_all
  have "segStart s < b \<and> segEnd s > a \<Longrightarrow>
      js_sub (max (segStart s) a) (segStart s) = max (segStart s) a - segStart s
      \<and> js_sub (min (segEnd s) b) (segStart s) = min (segEnd s) b - segStart s"
  proof -
    assume o: "segStart s < b \<and> segEnd s > a"
    have "safe_index (max (segStart s) a)" "safe_index (min (segEnd s) b)"
      using st en o unfolding safe_index_def by linarith+
    then show ?thesis using st by (simp add: js_sub_safe)
  qed
  with Cons show ?case by (simp add: piece_def)
qed

lemma segments_ok_safe:
  "segments_ok segs \<Longrightarrow> \<forall>s \<in> set segs. safe_index (segStart s) \<and> safe_index (segEnd s)"
  by (induction segs) auto

lemma origIndex_strict:
  assumes "segments_ok segs" "i < j" "j < length (buildFullText segs)"
  shows "origIndex segs i < origIndex segs j"
  using assms
proof (induction segs arbitrary: i j)
  case Nil
  then show ?case by simp
next
  case (Cons s ss)
  let ?L = "length (segText s)"
  from Cons.prems have ok: "segEnd s = segStart s + int ?L" "\<forall>t \<in> set ss. segEnd s \<le> segStart t"
    "segments_ok ss" by auto
  consider (both) "j < ?L" | (split) "i < ?L" "?L \<le> j" | (rest) "?L \<le> i" by linarith
  then show ?case
  proof cases
    case both
    with Cons.prems(2) show ?thesis by simp
  next
    case split
    have "segEnd s \<le> origIndex ss (j - ?L)"
      by (rule origIndex_lower) (use ok split Cons.prems(3) in auto)
    with split ok(1) show ?thesis by simp
  next
    case rest
    have "origIndex ss (i - ?L) < origIndex ss (j - ?L)"
      by (rule Cons.IH) (use ok rest Cons.prems in auto)
    with rest Cons.prems(2) show ?thesis by simp
  qed
qed

subsection \<open>From the runs of the document to the sorted segments\<close>

lemma paragraphSegments_nonempty: "s \<in> set (paragraphSegments pes) \<Longrightarrow> segText s \<noteq> []"
  by (induction pes) (auto split: option.splits TextRun.splits if_splits)

lemma extract_nonempty:
  "s \<in> set (extractTextFromContent body) \<Longrightarrow> segText s \<noteq> []"
  "s \<in> set (extractTextFromRows rows) \<Longrightarrow> segText s \<noteq> []"
  "s \<in> set (extractTextFromCells cells) \<Longrightarrow> segText s \<noteq> []"
  by (induction body and rows and cells
      rule: extractTextFromContent_extractTextFromRows_extractTextFromCells.induct)
    (auto dest: paragraphSegments_nonempty split: option.splits Paragraph.splits Table.splits)

lemma runs_ok_all: "runs_ok xs \<Longrightarrow> s \<in> set xs \<Longrightarrow> run_ok s"
  by (induction xs) auto

lemma insort_segments_ok:
  assumes "segments_ok ys" "run_ok x" "segText x \<noteq> []" "\<forall>t \<in> set ys. segText t \<noteq> []"
    and "\<forall>t \<in> set ys. segEnd x \<le> segStart t \<or> segEnd t \<le> segStart x"
  shows "segments_ok (insort_key segStart x ys)"
  using assms
proof (induction ys)
  case Nil
  then show ?case by (auto simp: run_ok_def)
next
  case (Cons y ys)
  from Cons.prems(1) have y: "safe_index (segStart y)" "safe_index (segEnd y)"
    "segEnd y = segStart y + int (length (segText y))" "\<forall>t \<in> set ys. segEnd y \<le> segStart t"
    "segments_ok ys" by auto
  from Cons.prems(2) have x: "safe_index (segStart x)" "safe_index (segEnd x)"
    "segEnd x = segStart x + int (length (segText x))" by (auto simp: run_ok_def)
  have xpos: "segStart x < segEnd x" using x(3) Cons.prems(3) by simp
  have ypos: "segStart y < segEnd y" using y(3) Cons.prems(4) by simp
  have dxy: "segEnd x \<le> segStart y \<or> segEnd y \<le> segStart x" using Cons.prems(5) by simp
  show ?case
  proof (cases "segStart x \<le> segStart y")
    case True
    have xy: "segEnd x \<le> segStart y" using dxy True ypos by linarith
    have "\<forall>t \<in> set (y # ys). segEnd x \<le> segStart t"
    proof
      fix t assume "t \<in> set (y # ys)"
      then consider "t = y" | "t \<in> set ys" by auto
      then show "segEnd x \<le> segStart t"
      proof cases
        case 1
        with xy show ?thesis by simp
      next
        case 2
        then have "segEnd y \<le> segStart t" using y(4) by blast
        with xy ypos show ?thesis by linarith
      qed
    qed
    then have "segments_ok (x # y # ys)"
      unfolding segments_ok.simps(2) [of x] using x Cons.prems(1) by blast
    moreover have "insort_key segStart x (y # ys) = x # y # ys" using True by simp
    ultimately show ?thesis by (simp only:)
  next
    case False
    have yx: "segEnd y \<le> segStart x" using dxy False xpos by linarith
    have ih: "segments_ok (insort_key segStart x ys)"
      by (rule Cons.IH) (use y Cons.prems in auto)
    have "\<forall>t \<in> set (insort_key segStart x ys). segEnd y \<le> segStart t"
      using yx y(4) by (auto simp: set_insort_key)
    then have "segments_ok (y # insort_key segStart x ys)"
      unfolding segments_ok.simps(2) [of y] using y(1,2,3) ih by blast
    moreover have "insort_key segStart x (y # ys) = y # insort_key segStart x ys"
      using False by simp
    ultimately show ?thesis by (simp only:)
  qed
qed

lemma sort_segments_ok:
  "runs_ok xs \<Longrightarrow> \<forall>t \<in> set xs. segText t \<noteq> [] \<Longrightarrow> segments_ok (sort_key segStart xs)"
proof (induction xs)
  case Nil
  show ?case by simp
next
  case (Cons x xs)
  have "segments_ok (insort_key segStart x (sort_key segStart xs))"
    by (rule insort_segments_ok) (use Cons in auto)
  then show ?case by simp
qed

lemma sortedSegments_ok:
  "runs_ok (extractTextFromContent body) \<Longrightarrow> segments_ok (sortedSegments body)"
  unfolding sortedSegments_def by (rule sort_segments_ok) (auto dest: extract_nonempty(1))

section \<open>Matches and their selection\<close>

lemma exactLoop_code [code]:
  "exactLoop s cmap pat i acc =
     (if pat = [] then None
      else Some (acc @ hitRanges (\<lambda>k. mappedRange cmap (int k) (int k + int (length pat) - 1))
        (exactHits s pat i)))"
  by (simp add: exactLoop_empty_diverges exactLoop_nonempty)

lemma normalizedLoop_code [code]:
  "normalizedLoop segs full cmap s pat i acc =
     (if pat = [] then None
      else Some (acc @ hitRanges (validatedRange segs full cmap pat) (exactHits s pat i)))"
  by (simp add: normalizedLoop_empty_diverges normalizedLoop_nonempty)

lemma exactHits_member:
  "k \<in> set (exactHits s pat i) \<longleftrightarrow> i \<le> k \<and> k \<le> length s \<and> occurs_at s pat k"
  by (auto simp: exactHits_def simp del: upt_Suc)

lemma hitRanges_map:
  "(\<And>k. k \<in> set hits \<Longrightarrow> f k = Some (g k)) \<Longrightarrow> hitRanges f hits = map g hits"
  by (induction hits) (simp_all add: hitRanges_def)

lemma exact_ranges:
  assumes "pat \<noteq> []" and ok: "segments_ok segs"
  shows "hitRanges (\<lambda>k. mappedRange (buildCharToSegmentMap 0 segs) (int k)
            (int k + int (length pat) - 1)) (exactHits (buildFullText segs) pat i)
    = map (hitRange segs (length pat)) (exactHits (buildFullText segs) pat i)"
proof (rule hitRanges_map)
  fix k assume "k \<in> set (exactHits (buildFullText segs) pat i)"
  then have "occurs_at (buildFullText segs) pat k" by (simp add: exactHits_member)
  then have b: "k + length pat \<le> length (buildFullText segs)"
    using assms(1) by (rule occurs_at_bound [rotated])
  have "1 \<le> length pat" using assms(1) by (cases pat) auto
  from mappedRange_charMap [OF ok this b]
  show "mappedRange (buildCharToSegmentMap 0 segs) (int k) (int k + int (length pat) - 1)
    = Some (hitRange segs (length pat) k)"
    by (simp add: hitRange_def)
qed

lemma findValidatedMatches_exact:
  assumes "pat \<noteq> []" "segments_ok segs" "exactHits (buildFullText segs) pat 0 \<noteq> []"
  shows "findValidatedMatches segs (buildFullText segs) (buildCharToSegmentMap 0 segs) pat
    = Some (map (hitRange segs (length pat)) (exactHits (buildFullText segs) pat 0))"
  using assms by (simp add: findValidatedMatches_def exactLoop_nonempty exact_ranges)

lemma sorted_exactHits: "sorted_wrt (<) (exactHits s pat i)"
  unfolding exactHits_def by (rule sorted_wrt_filter) (simp del: upt_Suc)

lemma hit_starts_strict:
  assumes "segments_ok segs" "pat \<noteq> []"
  shows "sorted_wrt (<) (map (\<lambda>k. startIndex (hitRange segs (length pat) k))
    (exactHits (buildFullText segs) pat i))"
proof -
  let ?hits = "exactHits (buildFullText segs) pat i"
  have "sorted_wrt (\<lambda>a b. origIndex segs a < origIndex segs b) ?hits"
  proof (rule sorted_wrt_mono_rel [OF _ sorted_exactHits])
    fix a b assume ab: "a \<in> set ?hits" "b \<in> set ?hits" "a < b"
    then have "occurs_at (buildFullText segs) pat b" by (simp add: exactHits_member)
    then have "b + length pat \<le> length (buildFullText segs)"
      using assms(2) by (rule occurs_at_bound [rotated])
    then have "b < length (buildFullText segs)" using assms(2) by (cases pat) auto
    then show "origIndex segs a < origIndex segs b"
      using origIndex_strict [OF assms(1) ab(3)] by simp
  qed
  then show ?thesis by (simp add: sorted_wrt_map hitRange_def)
qed

lemma update_fresh: "k \<notin> fst ` set al \<Longrightarrow> AList.update k v al = al @ [(k, v)]"
  by (induction al) auto

lemma fold_update_fresh:
  "distinct (map f ms) \<Longrightarrow> f ` set ms \<inter> fst ` set al = {} \<Longrightarrow>
   fold (\<lambda>m al. AList.update (f m) m al) ms al = al @ map (\<lambda>m. (f m, m)) ms"
proof (induction ms arbitrary: al)
  case Nil
  then show ?case by simp
next
  case (Cons m ms)
  have fresh: "f m \<notin> fst ` set al" using Cons.prems(2) by auto
  have "f ` set ms \<inter> fst ` set (al @ [(f m, m)]) = {}"
    using Cons.prems by auto
  with Cons.IH [of "al @ [(f m, m)]"] Cons.prems(1) show ?case
    by (simp add: update_fresh [OF fresh])
qed

lemma uniqueMatches_distinct:
  assumes "distinct (map startIndex ms)"
  shows "uniqueMatches ms = ms"
proof -
  have "distinct (map (\<lambda>m. (startIndex m, endIndex m)) ms)"
    using assms by (induction ms) auto
  from fold_update_fresh [OF this, of "[]"] show ?thesis
    by (simp add: uniqueMatches_def comp_def)
qed

lemma selectInstance_sorted:
  assumes "sorted_wrt (<) (map startIndex ms)" "1 \<le> k" "k \<le> length ms"
  shows "selectInstance ms (int k) = Some (ms ! (k - 1))"
proof -
  have d: "distinct (map startIndex ms)" and s: "sorted (map startIndex ms)"
    using assms(1) by (simp_all add: strict_sorted_iff)
  have e: "int k - 1 = int (k - 1)" using assms(2) by simp
  have "k - 1 < length ms" using assms(2,3) by arith
  then show ?thesis
    unfolding selectInstance_def uniqueMatches_distinct [OF d] sort_key_id_if_sorted [OF s] Let_def e
    using assms(3) by (simp add: at_index_def)
qed

lemma selectInstance_too_few:
  "int (length (sort_key startIndex (uniqueMatches ms))) < k \<Longrightarrow> selectInstance ms k = None"
  by (simp add: selectInstance_def Let_def)

section \<open>The search as a whole\<close>

lemma occurrences_set:
  "pat \<noteq> [] \<Longrightarrow> set (occurrences s pat) = {k. occurs_at s pat k}"
proof -
  assume ne: "pat \<noteq> []"
  have "occurs_at s pat k \<Longrightarrow> k \<le> length s" for k
    using occurs_at_bound [OF ne, of s k] by simp
  then show ?thesis by (auto simp: occurrences_def exactHits_member)
qed

lemma occurrences_bound:
  "pat \<noteq> [] \<Longrightarrow> k \<in> set (occurrences s pat) \<Longrightarrow> k + length pat \<le> length s \<and> occurs_at s pat k"
  using occurs_at_bound [of pat s k] by (simp add: occurrences_def exactHits_member)

lemma variantLoop_first:
  "findMatches v = Some ms \<Longrightarrow> instance \<le> int (length ms) \<Longrightarrow>
   variantLoop findMatches (v # vs) instance [] = Some ms"
  by simp

lemma searchContent_exact:
  assumes ok: "segments_ok (sortedSegments body)" and ne: "Q \<noteq> []"
    and k: "1 \<le> k" "k \<le> length (occurrences (buildFullText (sortedSegments body)) Q)"
  shows "searchContent body Q (int k)
    = Some (Some (hitRange (sortedSegments body) (length Q)
        (occurrences (buildFullText (sortedSegments body)) Q ! (k - 1))))"
proof -
  let ?segs = "sortedSegments body"
  let ?hits = "occurrences (buildFullText ?segs) Q"
  let ?ms = "map (hitRange ?segs (length Q)) ?hits"
  have hne: "exactHits (buildFullText ?segs) Q 0 \<noteq> []" using k by (auto simp: occurrences_def)
  have f: "findValidatedMatches ?segs (buildFullText ?segs) (buildCharToSegmentMap 0 ?segs) Q = Some ?ms"
    using findValidatedMatches_exact [OF ne ok hne] by (simp add: occurrences_def)
  have v: "variantLoop (findValidatedMatches ?segs (buildFullText ?segs) (buildCharToSegmentMap 0 ?segs))
      (searchVariants Q) (int k) [] = Some ?ms"
    unfolding searchVariants_def using f k(2) by simp
  have st: "sorted_wrt (<) (map startIndex ?ms)"
    using hit_starts_strict [OF ok ne, of 0] by (simp add: occurrences_def comp_def)
  have sel: "selectInstance ?ms (int k) = Some (?ms ! (k - 1))"
    by (rule selectInstance_sorted [OF st k(1)]) (use k in simp)
  have "k - 1 < length ?hits" using k by arith
  then have nth: "?ms ! (k - 1) = hitRange ?segs (length Q) (?hits ! (k - 1))" by simp
  show ?thesis
    using v sel nth by (simp add: searchContent_def Let_def)
qed

lemma findTextRange_fetched:
  "documents_get docs documentId w = (Inr (Some body), w') \<Longrightarrow>
   findTextRange docs documentId textToFind instance w
     = map_option (\<lambda>r. (Inr r, w')) (searchContent body textToFind instance)"
  by (simp add: findTextRange_def split: option.split)

lemma hitRange_extract:
  assumes "segments_ok segs" "Q \<noteq> []" "k \<in> set (occurrences (buildFullText segs) Q)"
  shows "extractTextFromRange segs (startIndex (hitRange segs (length Q) k))
    (endIndex (hitRange segs (length Q) k)) = Q"
proof -
  from occurrences_bound [OF assms(2,3)]
  have b: "k + length Q \<le> length (buildFullText segs)" and o: "occurs_at (buildFullText segs) Q k"
    by simp_all
  have "1 \<le> length Q" using assms(2) by (cases Q) auto
  from extract_roundtrip [OF assms(1) this b] o show ?thesis
    by (simp add: hitRange_def occurs_at_def extract_exact [OF segments_ok_safe [OF assms(1)]])
qed

lemma update_same: "distinct (map fst al) \<Longrightarrow> (k, v) \<in> set al \<Longrightarrow> AList.update k v al = al"
  by (induction al) (auto simp: rev_image_eqI)

lemma fold_update_same:
  assumes "distinct (map fst al)" "\<And>m. m \<in> set ms \<Longrightarrow> (f m, m) \<in> set al"
  shows "fold (\<lambda>m al. AList.update (f m) m al) ms al = al"
  using assms(2) by (induction ms) (simp_all add: update_same [OF assms(1)])

lemma uniqueMatches_twice:
  assumes "distinct (map startIndex ms)"
  shows "uniqueMatches (ms @ ms) = ms"
proof -
  let ?key = "\<lambda>m. (startIndex m, endIndex m)"
  let ?al = "map (\<lambda>m. (?key m, m)) ms"
  have d: "distinct (map ?key ms)" using assms by (induction ms) auto
  have 1: "fold (\<lambda>m al. AList.update (?key m) m al) ms [] = ?al"
    using fold_update_fresh [OF d, of "[]"] by simp
  have 2: "fold (\<lambda>m al. AList.update (?key m) m al) ms ?al = ?al"
    by (rule fold_update_same) (use d in \<open>auto simp: comp_def\<close>)
  show ?thesis by (simp add: uniqueMatches_def 1 2 comp_def)
qed

lemma variantLoop_three:
  "variantLoop f [a, b, c] instance [] =
     (case f a of None \<Rightarrow> None
      | Some m1 \<Rightarrow>
          if instance \<le> int (length m1) then Some m1
          else (case f b of None \<Rightarrow> None
                | Some m2 \<Rightarrow>
                    if instance \<le> int (length (m1 @ m2)) then Some (m1 @ m2)
                    else (case f c of None \<Rightarrow> None | Some m3 \<Rightarrow> Some (m1 @ m2 @ m3))))"
  by (simp add: Let_def split: option.split)

lemma findValidatedMatches_passes:
  "findValidatedMatches segs full cmap searchText =
     (case exactLoop full cmap searchText 0 [] of None \<Rightarrow> None
      | Some ms \<Rightarrow>
          if ms = []
          then normalizedLoop segs full cmap (normalizeText full) (normalizeText searchText) 0 []
          else Some ms)"
  by (simp add: findValidatedMatches_def split: option.split)

lemma searchContent_beyond:
  assumes ok: "segments_ok (sortedSegments body)" and ne: "Q \<noteq> []"
    and n: "1 \<le> length (occurrences (buildFullText (sortedSegments body)) Q)"
    and fixed: "normalizeText Q = Q"
  shows "searchContent body Q (int (length (occurrences (buildFullText (sortedSegments body)) Q)) + 1)
    = Some None"
proof -
  let ?segs = "sortedSegments body"
  let ?hits = "occurrences (buildFullText ?segs) Q"
  let ?ms = "map (hitRange ?segs (length Q)) ?hits"
  let ?f = "findValidatedMatches ?segs (buildFullText ?segs) (buildCharToSegmentMap 0 ?segs)"
  have hne: "exactHits (buildFullText ?segs) Q 0 \<noteq> []" using n by (auto simp: occurrences_def)
  have f: "?f Q = Some ?ms"
    using findValidatedMatches_exact [OF ne ok hne] by (simp add: occurrences_def)
  have v: "variantLoop ?f (searchVariants Q) (int (length ?hits) + 1) [] = Some (?ms @ ?ms)"
    unfolding searchVariants_def variantLoop_three fixed f using n by simp
  have st: "sorted_wrt (<) (map startIndex ?ms)"
    using hit_starts_strict [OF ok ne, of 0] by (simp add: occurrences_def comp_def)
  then have d: "distinct (map startIndex ?ms)" by (simp add: strict_sorted_iff)
  have "selectInstance (?ms @ ?ms) (int (length ?hits) + 1) = None"
    by (rule selectInstance_too_few) (simp add: uniqueMatches_twice [OF d])
  with v show ?thesis by (simp add: searchContent_def Let_def)
qed

lemma length_exactHits:
  assumes "pat \<noteq> []"
  shows "length (exactHits s pat i) \<le> length s"
proof -
  have "\<not> occurs_at s pat (length s)" using occurs_at_bound [OF assms, of s "length s"] assms by auto
  then have "exactHits s pat i = filter (occurs_at s pat) [i..<length s]"
    by (simp add: exactHits_def)
  also have "length \<dots> \<le> length [i..<length s]" by (rule length_filter_le)
  finally show ?thesis by simp
qed

lemma length_hitRanges: "length (hitRanges f hits) \<le> length hits"
  by (induction hits) (simp_all add: hitRanges_def split: option.split)

lemma findValidatedMatches_total:
  assumes "pat \<noteq> []" "normalizeText pat \<noteq> []"
  shows "\<exists>ms. findValidatedMatches segs full cmap pat = Some ms"
  using assms by (simp add: findValidatedMatches_def exactLoop_nonempty normalizedLoop_nonempty)

lemma variantLoop_total:
  "(\<And>v. v \<in> set vs \<Longrightarrow> \<exists>ms. f v = Some ms) \<Longrightarrow> \<exists>r. variantLoop f vs instance acc = Some r"
proof (induction vs arbitrary: acc)
  case Nil
  show ?case by simp
next
  case (Cons v vs)
  from Cons.prems [of v] obtain ms where "f v = Some ms" by auto
  moreover have "\<exists>r. variantLoop f vs instance (acc @ ms) = Some r"
    by (rule Cons.IH) (use Cons.prems in auto)
  ultimately show ?case by (auto simp: Let_def)
qed

lemma searchContent_total:
  assumes "textToFind \<noteq> []" "normalizeText textToFind \<noteq> []"
  shows "\<exists>r. searchContent body textToFind instance = Some r"
proof -
  let ?segs = "sortedSegments body"
  let ?f = "findValidatedMatches ?segs (buildFullText ?segs) (buildCharToSegmentMap 0 ?segs)"
  have "\<exists>ms. ?f v = Some ms" if "v \<in> set (searchVariants textToFind)" for v
  proof -
    from that consider "v = textToFind" | "v = normalizeText textToFind"
      | "v = standardizeApostrophes textToFind" by (auto simp: searchVariants_def)
    then have "v \<noteq> [] \<and> normalizeText v \<noteq> []"
    proof cases
      case 1
      with assms show ?thesis by simp
    next
      case 2
      with assms show ?thesis by (simp add: normalizeText_idem)
    next
      case 3
      have "standardizeApostrophes textToFind \<noteq> []"
        using assms(1) by (simp add: standardizeApostrophes_def replace_class_def)
      with 3 assms(2) show ?thesis by (simp add: normalizeText_standardizeApostrophes)
    qed
    then show ?thesis using findValidatedMatches_total by blast
  qed
  from variantLoop_total [of "searchVariants textToFind" ?f "instance" "[]", OF this]
  show ?thesis by (auto simp: searchContent_def Let_def)
qed

lemma findTextRange_total:
  assumes "textToFind \<noteq> []" "normalizeText textToFind \<noteq> []"
  shows "\<exists>r. findTextRange docs documentId textToFind instance w = Some r"
proof -
  obtain res w' where g: "documents_get docs documentId w = (res, w')" by (cases "documents_get docs documentId w")
  show ?thesis
  proof (cases res)
    case (Inl e)
    with g show ?thesis by (simp add: findTextRange_def)
  next
    case (Inr c)
    show ?thesis
    proof (cases c)
      case None
      with g Inr show ?thesis by (simp add: findTextRange_def)
    next
      case (Some body)
      from searchContent_total [OF assms, of body "instance"] g Inr Some show ?thesis
        by (auto simp: findTextRange_def)
    qed
  qed
qed

lemma hitRanges_member:
  "r \<in> set (hitRanges f hits) \<Longrightarrow> \<exists>k \<in> set hits. f k = Some r"
  by (induction hits) (auto simp: hitRanges_def split: option.splits)

lemma validatedRange_valid:
  "validatedRange segs full cmap nst k = Some r \<Longrightarrow>
   normalizeText (extractTextFromRange segs (startIndex r) (endIndex r)) = nst"
  by (auto simp: validatedRange_def Let_def split: option.splits if_splits)

lemma normalizedLoop_result:
  assumes "normalizedLoop segs full cmap s pat i acc = Some ms"
  shows "ms = acc @ hitRanges (validatedRange segs full cmap pat) (exactHits s pat i)"
  using assms normalizedLoop_Some_nonempty [OF assms] by (simp add: normalizedLoop_nonempty)

section \<open>Evaluation on the sample documents\<close>

lemmas eval_occurrences = occurrences_def exactHits_def occurs_at_def upt_conv_Cons
lemmas eval_double = js_add_def js_sub_def round_double_def
lemmas eval_runs = run_ok_def safe_index_def

lemma fixedDocs_get: "documents_get (fixedDocs body) documentId w = (Inr (Some body), w)"
  by (simp add: fixedDocs_def)

lemma sortedSegments_shuffledBody:
  "sortedSegments shuffledBody =
     [\<lparr>segText = js ''abc'', segStart = 1, segEnd = 4\<rparr>,
      \<lparr>segText = js ''def'', segStart = 4, segEnd = 7\<rparr>]"
  by (simp add: sortedSegments_def shuffledBody_def js_def)

lemma runs_ok_shuffledBody: "runs_ok (extractTextFromContent shuffledBody)"
  by (simp add: shuffledBody_def js_def eval_runs)

lemma occurrences_shuffledBody:
  "occurrences (buildFullText (sortedSegments shuffledBody)) (js ''cd'') = [2]"
  by (simp add: sortedSegments_shuffledBody js_def eval_occurrences)

lemma sortedSegments_overlapBody:
  "sortedSegments overlapBody =
     [\<lparr>segText = js ''ab'', segStart = 1, segEnd = 3\<rparr>,
      \<lparr>segText = js ''cd'', segStart = 2, segEnd = 4\<rparr>]"
  by (simp add: sortedSegments_def overlapBody_def js_def)

lemma occurrences_overlapBody:
  "occurrences (buildFullText (sortedSegments overlapBody)) (js ''cd'') = [2]"
  by (simp add: sortedSegments_overlapBody js_def eval_occurrences)

lemma exactLoop_overlapBody:
  "exactLoop (buildFullText (sortedSegments overlapBody))
     (buildCharToSegmentMap 0 (sortedSegments overlapBody)) (js ''cd'') 0 []
   = Some [\<lparr>startIndex = 2, endIndex = 4\<rparr>]"
  using occurrences_overlapBody
  by (simp add: exactLoop_nonempty js_def occurrences_def sortedSegments_overlapBody hitRanges_def
      mappedRange_def at_index_def eval_double)

lemma selectInstance_single: "selectInstance [r] 1 = Some r"
  by (simp add: selectInstance_def uniqueMatches_def at_index_def)

lemma searchContent_overlapBody:
  "searchContent overlapBody (js ''cd'') 1 = Some (Some \<lparr>startIndex = 2, endIndex = 4\<rparr>)"
  by (simp add: searchContent_def Let_def searchVariants_def findValidatedMatches_def
      exactLoop_overlapBody selectInstance_single)

lemma extract_overlapBody: "extractTextFromRange (sortedSegments overlapBody) 2 4 = js ''bcd''"
  by (simp add: sortedSegments_overlapBody js_def substring_def eval_double)

lemmas eval_normalize = normalizeText_def replace_class_def trim_def is_ws_def
  is_line_terminator_def is_apostrophe_def is_dquote_def is_dash_def

lemma extract_oneParagraph:
  "t \<noteq> [] \<Longrightarrow> extractTextFromContent (oneParagraph t)
     = [\<lparr>segText = t, segStart = 1, segEnd = 1 + int (length t)\<rparr>]"
  by (simp add: oneParagraph_def)

lemma sortedSegments_oneParagraph:
  "t \<noteq> [] \<Longrightarrow> sortedSegments (oneParagraph t)
     = [\<lparr>segText = t, segStart = 1, segEnd = 1 + int (length t)\<rparr>]"
  by (simp add: sortedSegments_def extract_oneParagraph)

lemma findValidatedMatches_exact_eval:
  assumes "segments_ok segs" "pat \<noteq> []" "occurrences (buildFullText segs) pat = hits" "hits \<noteq> []"
    "map (hitRange segs (length pat)) hits = ms"
  shows "findValidatedMatches segs (buildFullText segs) (buildCharToSegmentMap 0 segs) pat = Some ms"
  using findValidatedMatches_exact [of pat segs] assms by (simp add: occurrences_def)

lemma apostrophe_segments:
  "sortedSegments apostropheBody
     = [\<lparr>segText = [0x69, 0x74, 0x2019, 0x73, 0x20, 0x69, 0x74, 0x27, 0x73],
         segStart = 1, segEnd = 10\<rparr>]"
  by (simp add: apostropheBody_def sortedSegments_oneParagraph)

lemma apostrophe_occurrences:
  "occurrences (buildFullText (sortedSegments apostropheBody)) curlyQuery = [0]"
  "occurrences (buildFullText (sortedSegments apostropheBody)) [0x69, 0x74, 0x27, 0x73] = [5]"
  by (simp_all add: apostrophe_segments curlyQuery_def eval_occurrences)

lemma normalizeText_curlyQuery: "normalizeText curlyQuery = [0x69, 0x74, 0x27, 0x73]"
  by (simp add: curlyQuery_def eval_normalize)

lemma apostrophe_segments_ok: "segments_ok (sortedSegments apostropheBody)"
  by (simp add: apostrophe_segments safe_index_def)

lemma apostrophe_matches:
  "findValidatedMatches (sortedSegments apostropheBody) (buildFullText (sortedSegments apostropheBody))
     (buildCharToSegmentMap 0 (sortedSegments apostropheBody)) curlyQuery
   = Some [\<lparr>startIndex = 1, endIndex = 5\<rparr>]"
  "findValidatedMatches (sortedSegments apostropheBody) (buildFullText (sortedSegments apostropheBody))
     (buildCharToSegmentMap 0 (sortedSegments apostropheBody)) [0x69, 0x74, 0x27, 0x73]
   = Some [\<lparr>startIndex = 6, endIndex = 10\<rparr>]"
   apply (rule findValidatedMatches_exact_eval [OF apostrophe_segments_ok _ apostrophe_occurrences(1)])
     apply (simp_all add: curlyQuery_def hitRange_def apostrophe_segments)[3]
   apply (rule findValidatedMatches_exact_eval [OF apostrophe_segments_ok _ apostrophe_occurrences(2)])
     apply (simp_all add: hitRange_def apostrophe_segments)
  done

lemma selectInstance_pair:
  "selectInstance [\<lparr>startIndex = 1, endIndex = 5\<rparr>, \<lparr>startIndex = 6, endIndex = 10\<rparr>] 2
      = Some \<lparr>startIndex = 6, endIndex = 10\<rparr>"
  by (simp add: selectInstance_def uniqueMatches_def at_index_def)

lemma hello_segments:
  "sortedSegments helloBody
     = [\<lparr>segText = js ''Hello world. Hello again.'', segStart = 1, segEnd = 26\<rparr>]"
  by (simp add: helloBody_def sortedSegments_oneParagraph js_def)

lemma hello_runs_ok: "runs_ok (extractTextFromContent helloBody)"
  by (simp add: helloBody_def extract_oneParagraph js_def eval_runs)

lemma hello_occurrences:
  "occurrences (buildFullText (sortedSegments helloBody)) (js ''Hello'') = [0, 13]"
  by (simp add: hello_segments js_def eval_occurrences)

lemma hello_ranges:
  "hitRange (sortedSegments helloBody) (length (js ''Hello'')) 0 = \<lparr>startIndex = 1, endIndex = 6\<rparr>"
  "hitRange (sortedSegments helloBody) (length (js ''Hello'')) 13 = \<lparr>startIndex = 14, endIndex = 19\<rparr>"
  by (simp_all add: hello_segments hitRange_def js_def)

lemma hello_fixed: "normalizeText (js ''Hello'') = js ''Hello''"
  by (simp add: js_def eval_normalize)

lemma mappedRange_defined:
  assumes "1 \<le> n" "k + n \<le> length cmap"
  shows "mappedRange cmap (int k) (int k + int n - 1)
    = Some \<lparr>startIndex = originalIndex (cmap ! k),
             endIndex = js_add (originalIndex (cmap ! (k + n - 1))) 1\<rparr>"
proof -
  have e: "int k + int n - 1 = int (k + n - 1)" using assms(1) by simp
  have "k < length cmap" "k + n - 1 < length cmap" using assms by simp_all
  then show ?thesis unfolding mappedRange_def e by (simp add: at_index_def)
qed

lemma exactLoop_built:
  assumes "searchText \<noteq> []"
  shows "exactLoop (buildFullText segs) (buildCharToSegmentMap 0 segs) searchText 0 []
    = Some (map (\<lambda>k. \<lparr>startIndex = originalIndex (buildCharToSegmentMap 0 segs ! k),
                         endIndex = js_add (originalIndex
                           (buildCharToSegmentMap 0 segs ! (k + length searchText - 1))) 1\<rparr>)
        (occurrences (buildFullText segs) searchText))"
proof -
  let ?cmap = "buildCharToSegmentMap 0 segs"
  have "hitRanges (\<lambda>k. mappedRange ?cmap (int k) (int k + int (length searchText) - 1))
      (exactHits (buildFullText segs) searchText 0)
    = map (\<lambda>k. \<lparr>startIndex = originalIndex (?cmap ! k),
                  endIndex = js_add (originalIndex (?cmap ! (k + length searchText - 1))) 1\<rparr>)
        (exactHits (buildFullText segs) searchText 0)"
  proof (rule hitRanges_map)
    fix k assume "k \<in> set (exactHits (buildFullText segs) searchText 0)"
    then have "occurs_at (buildFullText segs) searchText k" by (simp add: exactHits_member)
    then have "k + length searchText \<le> length ?cmap"
      using occurs_at_bound [OF assms] by (simp add: length_buildCharToSegmentMap)
    moreover have "1 \<le> length searchText" using assms by (cases searchText) auto
    ultimately show "mappedRange ?cmap (int k) (int k + int (length searchText) - 1)
      = Some \<lparr>startIndex = originalIndex (?cmap ! k),
               endIndex = js_add (originalIndex (?cmap ! (k + length searchText - 1))) 1\<rparr>"
      by (rule mappedRange_defined [rotated])
  qed
  then show ?thesis using assms by (simp add: exactLoop_nonempty occurrences_def)
qed

lemma dont_segments:
  "sortedSegments dontBody
     = [\<lparr>segText = [0x64, 0x6F, 0x6E, 0x2019, 0x74], segStart = 1, segEnd = 6\<rparr>]"
  by (simp add: dontBody_def sortedSegments_oneParagraph)

lemma dont_normalized:
  "normalizeText [0x64, 0x6F, 0x6E, 0x2019, 0x74] = dontQuery"
  "normalizeText dontQuery = dontQuery"
  by (simp_all add: dontQuery_def eval_normalize)

lemma normalizeText_single:
  "normalizeText [0x64] = [0x64]" "normalizeText [0x6F] = [0x6F]" "normalizeText [0x6E] = [0x6E]"
  "normalizeText [0x2019] = [0x27]" "normalizeText [0x74] = [0x74]"
  by (simp_all add: eval_normalize)

lemma dont_walk:
  "walkToFound [0x64, 0x6F, 0x6E, 0x2019, 0x74] 0 0 0 = 0"
  "walkToEnd [0x64, 0x6F, 0x6E, 0x2019, 0x74] 5 0 = 5"
  by (simp_all add: walkToFound.simps walkToEnd.simps normalizeText_single Let_def)

lemma dont_validated:
  "validatedRange (sortedSegments dontBody) (buildFullText (sortedSegments dontBody))
     (buildCharToSegmentMap 0 (sortedSegments dontBody)) dontQuery 0
   = Some \<lparr>startIndex = 1, endIndex = 6\<rparr>"
proof -
  have l: "int (length dontQuery) = 5" by (simp add: dontQuery_def)
  show ?thesis
    unfolding validatedRange_def dont_segments l
    by (simp add: dont_walk mappedRange_def at_index_def eval_double substring_def dont_normalized)
qed

lemma dont_hits: "occurrences dontQuery dontQuery = [0]"
  by (simp add: dontQuery_def eval_occurrences)

lemma dont_loop:
  "normalizedLoop (sortedSegments dontBody) (buildFullText (sortedSegments dontBody))
     (buildCharToSegmentMap 0 (sortedSegments dontBody))
     (normalizeText (buildFullText (sortedSegments dontBody))) (normalizeText dontQuery) 0 []
   = Some [\<lparr>startIndex = 1, endIndex = 6\<rparr>]"
proof -
  have nf: "normalizeText (buildFullText (sortedSegments dontBody)) = dontQuery"
    by (simp add: dont_segments dont_normalized)
  have ne: "dontQuery \<noteq> []" by (simp add: dontQuery_def)
  have h: "exactHits dontQuery dontQuery 0 = [0]" using dont_hits by (simp add: occurrences_def)
  show ?thesis
    unfolding nf dont_normalized(2) normalizedLoop_nonempty [OF ne] h
    by (simp add: hitRanges_def dont_validated)
qed

section \<open>The paragraph finder\<close>

lemma first_of_append: "first_of (xs @ ys) = orElse (first_of xs) (first_of ys)"
  by (cases xs) (simp_all add: first_of_def orElse_def)

lemma first_of_simps [simp]: "first_of [] = None" "first_of (x # xs) = Some x"
  by (simp_all add: first_of_def)

lemma orElse_simps [simp]: "orElse None y = y" "orElse (Some x) y = Some x"
  by (simp_all add: orElse_def)

lemma findParagraph_first:
  "findParagraphInContent i body = first_of (enclosingParagraphs i body)"
  "findParagraphInRows i rows = first_of (enclosingParagraphsRows i rows)"
  "findParagraphInCells i cells = first_of (enclosingParagraphsCells i cells)"
  by (induction i body and i rows and i cells
      rule: findParagraphInContent_findParagraphInRows_findParagraphInCells.induct)
    (auto simp: first_of_append split: option.splits Table.splits)

lemma enclosing_subset:
  "r \<in> set (enclosingParagraphs i body) \<Longrightarrow> r \<in> set (paragraphRanges body) \<and> contains_index i r"
  "r \<in> set (enclosingParagraphsRows i rows) \<Longrightarrow> r \<in> set (paragraphRangesRows rows) \<and> contains_index i r"
  "r \<in> set (enclosingParagraphsCells i cells) \<Longrightarrow> r \<in> set (paragraphRangesCells cells) \<and> contains_index i r"
  by (induction i body and i rows and i cells
      rule: enclosingParagraphs_enclosingParagraphsRows_enclosingParagraphsCells.induct)
    (force simp: contains_index_def split: option.splits Table.splits if_splits)+

lemma first_of_member: "first_of xs = Some x \<Longrightarrow> x \<in> set xs"
  by (cases xs) auto

lemma findParagraph_sound:
  "findParagraphInContent i body = Some r \<Longrightarrow>
   r \<in> set (paragraphRanges body) \<and> contains_index i r"
  using enclosing_subset(1) first_of_member unfolding findParagraph_first(1) by metis


lemma filter_outside:
  assumes "\<forall>r \<in> set xs. s \<le> startIndex r \<and> endIndex r \<le> e" "\<not> (s \<le> i \<and> i < e)"
  shows "filter (contains_index i) xs = []"
  using assms by (auto simp: filter_empty_conv contains_index_def)

lemma enclosing_first_nested:
  "well_nested body \<Longrightarrow>
   first_of (enclosingParagraphs i body) = first_of (filter (contains_index i) (paragraphRanges body))"
  "well_nested_rows rows \<Longrightarrow>
   first_of (enclosingParagraphsRows i rows)
     = first_of (filter (contains_index i) (paragraphRangesRows rows))"
  "well_nested_cells cells \<Longrightarrow>
   first_of (enclosingParagraphsCells i cells)
     = first_of (filter (contains_index i) (paragraphRangesCells cells))"
proof (induction body and rows and cells
    rule: well_nested_well_nested_rows_well_nested_cells.induct)
  case 1
  show ?case by simp
next
  case (2 si ei par tab rest)
  from "2.prems" have rest: "well_nested rest" by simp
  note ihr = "2.IH"(2) [OF rest]
  let ?tabRanges = "case tab of Some (Table (Some rows)) \<Rightarrow> paragraphRangesRows rows | _ \<Rightarrow> []"
  show ?case
  proof (cases "\<exists>s e. si = Some s \<and> ei = Some e")
    case False
    then have noIdx: "(case (si, ei) of (Some s, Some e) \<Rightarrow> X s e | _ \<Rightarrow> Y) = Y" for X and Y :: "'b"
      by (auto split: option.splits)
    have own: "(case (si, ei, par) of (Some s, Some e, Some p) \<Rightarrow> [\<lparr>startIndex = s, endIndex = e\<rparr>]
        | _ \<Rightarrow> []) = []"
      using False by (auto split: option.splits)
    have tabs: "?tabRanges = []"
      using "2.prems" False by (auto split: option.splits Table.splits)
    show ?thesis
      by (simp only: enclosingParagraphs.simps paragraphRanges.simps noIdx own tabs append_Nil ihr)
  next
    case True
    then obtain s e where idx: "si = Some s" "ei = Some e" by blast
    show ?thesis
    proof (cases "s \<le> i \<and> i < e")
      case inside: True
      show ?thesis
      proof (cases par)
        case (Some p)
        with idx inside show ?thesis by (simp add: contains_index_def)
      next
        case None
        show ?thesis
        proof (cases "\<exists>rows. tab = Some (Table (Some rows))")
          case True
          then obtain rows where t: "tab = Some (Table (Some rows))" by blast
          from "2.prems" t have "well_nested_rows rows" by simp
          from "2.IH"(1) [OF t refl refl this] ihr idx inside None t
          show ?thesis by (simp add: first_of_append)
        next
          case False
          then have "?tabRanges = []" by (auto split: option.splits Table.splits)
          moreover have "(case tab of Some (Table (Some rows)) \<Rightarrow> enclosingParagraphsRows i rows
              | _ \<Rightarrow> []) = []"
            using False by (auto split: option.splits Table.splits)
          ultimately show ?thesis using ihr idx inside None by simp
        qed
      qed
    next
      case outside: False
      have "\<forall>r \<in> set ?tabRanges. s \<le> startIndex r \<and> endIndex r \<le> e"
        using "2.prems" idx by (auto split: option.splits Table.splits)
      then have tabs: "filter (contains_index i) ?tabRanges = []"
        using outside by (rule filter_outside)
      have own: "filter (contains_index i)
          (case (si, ei, par) of (Some s, Some e, Some p) \<Rightarrow> [\<lparr>startIndex = s, endIndex = e\<rparr>]
           | _ \<Rightarrow> []) = []"
        using idx outside by (auto simp: contains_index_def split: option.splits)
      have enc: "enclosingParagraphs i (StructuralElement si ei par tab # rest)
          = enclosingParagraphs i rest"
        using idx outside by auto
      have pr: "filter (contains_index i) (paragraphRanges (StructuralElement si ei par tab # rest))
          = filter (contains_index i) (paragraphRanges rest)"
        by (simp only: paragraphRanges.simps filter_append own tabs append_Nil)
      show ?thesis unfolding enc pr by (rule ihr)
    qed
  qed
next
  case 3
  show ?case by simp
next
  case (4 cells rows)
  then show ?case by (auto simp: first_of_append split: option.splits)
next
  case 5
  show ?case by simp
next
  case (6 c cells)
  then show ?case by (auto simp: first_of_append split: option.splits)
qed

lemma getParagraphRange_fetched:
  "documents_get docs documentId w = (Inr (Some body), w') \<Longrightarrow>
   getParagraphRange docs documentId indexWithin w = (Inr (findParagraphInContent indexWithin body), w')"
  by (simp add: getParagraphRange_def)

section \<open>The apostrophe patterns and the split\<close>

lemma rx_class_consumes:
  "r \<in> set (rx_class P s) \<Longrightarrow> \<exists>c. s = c # r \<and> P c"
  by (auto simp: rx_class_def split: list.splits if_splits)

lemma rx_plus_consumes:
  "r \<in> set (rx_plus P s) \<Longrightarrow> \<exists>p. s = p @ r \<and> p \<noteq> []"
proof (induction s)
  case Nil
  then show ?case by simp
next
  case (Cons c cs)
  show ?case
  proof (cases "r = cs")
    case True
    then show ?thesis by (intro exI [of _ "[c]"]) simp
  next
    case False
    with Cons.prems have "r \<in> set (rx_plus P cs)" by (auto split: if_splits)
    from Cons.IH [OF this] obtain p where "cs = p @ r" by blast
    then show ?thesis by (intro exI [of _ "c # p"]) simp
  qed
qed

lemma consuming_class: "consuming (rx_class P)"
  unfolding consuming_def
proof (intro allI impI)
  fix s r assume "r \<in> set (rx_class P s)"
  from rx_class_consumes [OF this] obtain c where "s = c # r" by blast
  then show "\<exists>p. s = p @ r" by (intro exI [of _ "[c]"]) simp
qed

lemma consuming_letter: "consuming (rx_letter l)"
  unfolding rx_letter_def by (rule consuming_class)

lemma consuming_opt: "consuming m \<Longrightarrow> consuming (rx_opt m)"
  unfolding consuming_def rx_opt_def by auto

lemma consuming_seq: "consuming m1 \<Longrightarrow> consuming m2 \<Longrightarrow> consuming (rx_seq m1 m2)"
  unfolding consuming_def rx_seq_def
proof (intro allI impI)
  fix s r
  assume a: "\<forall>s r. r \<in> set (m1 s) \<longrightarrow> (\<exists>p. s = p @ r)"
    and b: "\<forall>s r. r \<in> set (m2 s) \<longrightarrow> (\<exists>p. s = p @ r)"
    and r: "r \<in> set (concat (map m2 (m1 s)))"
  from r obtain x where x: "x \<in> set (m1 s)" "r \<in> set (m2 x)" by auto
  from a x(1) obtain p where p: "s = p @ x" by blast
  from b x(2) obtain q where q: "x = q @ r" by blast
  from p q have "s = (p @ q) @ r" by simp
  then show "\<exists>p. s = p @ r" by blast
qed

lemma afterGroup_consumes:
  assumes "consuming m" "r3 \<in> set (afterGroup m r2)"
  shows "\<exists>p. r2 = p @ r3 \<and> p \<noteq> []"
proof -
  from assms(2) obtain x y where x: "x \<in> set (m r2)" and y: "y \<in> set (rx_plus is_ws x)"
    and z: "r3 \<in> set (rx_plus (\<lambda>c. \<not> is_line_terminator c) y)"
    by (auto simp: afterGroup_def rx_seq_def)
  from assms(1) x obtain p where p: "r2 = p @ x" unfolding consuming_def by blast
  from rx_plus_consumes [OF y] obtain q where q: "x = q @ y" "q \<noteq> []" by blast
  from rx_plus_consumes [OF z] obtain t where t: "y = t @ r3" by blast
  from p q t have "r2 = (p @ q @ t) @ r3 \<and> p @ q @ t \<noteq> []" by simp
  then show ?thesis by blast
qed

lemma matchHere_split:
  assumes "consuming m" "(b, a) \<in> set (matchHere m s)"
  shows "\<exists>c post. s = b @ c # a @ post \<and> is_apostrophe c \<and> b \<noteq> [] \<and> a \<noteq> []"
proof -
  from assms(2) obtain r1 r2 r3 where r1: "r1 \<in> set (rx_plus is_word s)"
    and r2: "r2 \<in> set (rx_class is_apostrophe r1)" and r3: "r3 \<in> set (afterGroup m r2)"
    and b: "b = take (length s - length r1) s" and a: "a = take (length r2 - length r3) r2"
    by (auto simp: matchHere_def)
  from rx_plus_consumes [OF r1] obtain p where p: "s = p @ r1" "p \<noteq> []" by blast
  from rx_class_consumes [OF r2] obtain c where c: "r1 = c # r2" "is_apostrophe c" by blast
  from afterGroup_consumes [OF assms(1) r3] obtain q where q: "r2 = q @ r3" "q \<noteq> []" by blast
  from b p have b': "b = p" by simp
  from a q have a': "a = q" by simp
  from p c q b' a' have "s = b @ c # a @ r3" by simp
  with c(2) p(2) q(2) b' a' show ?thesis by blast
qed

lemma regexMatch_split:
  assumes "consuming m" "regexMatch m s = Some (b, a)"
  shows "\<exists>pre c post. s = pre @ b @ c # a @ post \<and> is_apostrophe c \<and> b \<noteq> [] \<and> a \<noteq> []"
  using assms(2)
proof (induction s)
  case Nil
  then show ?case by simp
next
  case (Cons x xs)
  show ?case
  proof (cases "matchHere m (x # xs)")
    case Nil
    with Cons.prems have "regexMatch m xs = Some (b, a)" by simp
    from Cons.IH [OF this] obtain pre c post
      where "xs = pre @ b @ c # a @ post \<and> is_apostrophe c \<and> b \<noteq> [] \<and> a \<noteq> []" by blast
    then have "x # xs = (x # pre) @ b @ c # a @ post \<and> is_apostrophe c \<and> b \<noteq> [] \<and> a \<noteq> []"
      by simp
    then show ?thesis by blast
  next
    case (Cons h hs)
    with Cons.prems have "(b, a) \<in> set (matchHere m (x # xs))" by simp
    from matchHere_split [OF assms(1) this] obtain c post
      where "x # xs = [] @ b @ c # a @ post \<and> is_apostrophe c \<and> b \<noteq> [] \<and> a \<noteq> []" by auto
    then show ?thesis by blast
  qed
qed

lemma firstPatternMatch_split:
  assumes "\<forall>m \<in> set ps. consuming m" "firstPatternMatch ps s = Some (b, a)"
  shows "\<exists>pre c post. s = pre @ b @ c # a @ post \<and> is_apostrophe c \<and> b \<noteq> [] \<and> a \<noteq> []"
  using assms
proof (induction ps)
  case Nil
  then show ?case by simp
next
  case (Cons m ms)
  show ?case
  proof (cases "regexMatch m s")
    case None
    with Cons.prems have "firstPatternMatch ms s = Some (b, a)" by simp
    with Cons show ?thesis by simp
  next
    case (Some r)
    with Cons.prems have "regexMatch m s = Some (b, a)" by simp
    from regexMatch_split [OF _ this] Cons.prems(1) show ?thesis by simp
  qed
qed

lemma consuming_apostrophePatterns: "\<forall>m \<in> set apostrophePatterns. consuming m"
  by (simp add: apostrophePatterns_def consuming_opt consuming_seq consuming_letter)

lemma highlightRange_None:
  "highlightRange hexToRgbColor docs documentId None styleParams w = (Inr False, w)"
  by (simp add: highlightRange_def)

lemma highlightApostrophePhrase_matched:
  assumes "firstPatternMatch apostrophePatterns textToFind = Some (b, a)"
  shows "highlightApostrophePhrase hexToRgbColor docs documentId textToFind instance styleParams w =
     (case findTextRange docs documentId b instance w of
        None \<Rightarrow> None
      | Some (Inl e, w1) \<Rightarrow> Some (False, w1)
      | Some (Inr beforeRange, w1) \<Rightarrow>
          (case highlightRange hexToRgbColor docs documentId beforeRange styleParams w1 of
             (Inl e, w2) \<Rightarrow> Some (False, w2)
           | (Inr sent1, w2) \<Rightarrow>
               (case findTextRange docs documentId a instance w2 of
                  None \<Rightarrow> None
                | Some (Inl e, w3) \<Rightarrow> Some (False, w3)
                | Some (Inr afterRange, w3) \<Rightarrow>
                    (case highlightRange hexToRgbColor docs documentId afterRange styleParams w3 of
                       (Inl e, w4) \<Rightarrow> Some (False, w4)
                     | (Inr sent2, w4) \<Rightarrow> Some (sent1 \<and> sent2, w4)))))"
  unfolding highlightApostrophePhrase_def assms
  by (simp add: Let_def split: option.split prod.split sum.split)

lemma highlightApostrophePhrase_unmatched:
  assumes "firstPatternMatch apostrophePatterns textToFind = None"
  shows "highlightApostrophePhrase hexToRgbColor docs documentId textToFind instance styleParams w =
     (case findTextRange docs documentId textToFind instance w of
        None \<Rightarrow> None
      | Some (Inl e, w1) \<Rightarrow> Some (False, w1)
      | Some (Inr found, w1) \<Rightarrow>
          (case highlightRange hexToRgbColor docs documentId found styleParams w1 of
             (Inl e, w2) \<Rightarrow> Some (False, w2)
           | (Inr sent, w2) \<Rightarrow> Some (sent, w2)))"
  unfolding highlightApostrophePhrase_def assms by simp

section \<open>Failed fetches and searches without a result\<close>

lemma hitRanges_Nil: "hitRanges f [] = []"
  by (simp add: hitRanges_def)

lemma findValidatedMatches_none:
  assumes "pat \<noteq> []" "normalizeText pat \<noteq> []"
    "occurrences full pat = []" "occurrences (normalizeText full) (normalizeText pat) = []"
  shows "findValidatedMatches segs full cmap pat = Some []"
  using assms
  by (simp add: findValidatedMatches_passes exactLoop_nonempty normalizedLoop_nonempty
      occurrences_def hitRanges_Nil)

lemma standardizeApostrophes_nonempty: "s \<noteq> [] \<Longrightarrow> standardizeApostrophes s \<noteq> []"
  by (simp add: standardizeApostrophes_def replace_class_def)

lemma selectInstance_Nil: "selectInstance [] instance = None"
  by (simp add: selectInstance_def uniqueMatches_def at_index_def)

lemma searchContent_none:
  assumes ne: "Q \<noteq> []" and nn: "normalizeText Q \<noteq> []"
    and o1: "occurrences (buildFullText (sortedSegments body)) Q = []"
    and o2: "occurrences (buildFullText (sortedSegments body)) (normalizeText Q) = []"
    and o3: "occurrences (buildFullText (sortedSegments body)) (standardizeApostrophes Q) = []"
    and o4: "occurrences (normalizeText (buildFullText (sortedSegments body))) (normalizeText Q) = []"
  shows "searchContent body Q instance = Some None"
proof -
  let ?segs = "sortedSegments body"
  let ?f = "findValidatedMatches ?segs (buildFullText ?segs) (buildCharToSegmentMap 0 ?segs)"
  have 1: "?f Q = Some []"
    by (rule findValidatedMatches_none [OF ne nn o1 o4])
  have 2: "?f (normalizeText Q) = Some []"
    by (rule findValidatedMatches_none) (simp_all add: nn normalizeText_idem o2 o4)
  have 3: "?f (standardizeApostrophes Q) = Some []"
    by (rule findValidatedMatches_none)
      (simp_all add: nn ne standardizeApostrophes_nonempty normalizeText_standardizeApostrophes o3 o4)
  have v: "variantLoop ?f (searchVariants Q) instance [] = Some []"
    unfolding searchVariants_def variantLoop_three 1 2 3 by simp
  show ?thesis
    using v by (simp add: searchContent_def Let_def selectInstance_Nil)
qed

lemma uniqueMatches_repeat:
  assumes "distinct (map startIndex ms)" "set xs \<subseteq> set ms"
  shows "uniqueMatches (ms @ xs) = ms"
proof -
  let ?key = "\<lambda>m. (startIndex m, endIndex m)"
  let ?al = "map (\<lambda>m. (?key m, m)) ms"
  have d: "distinct (map ?key ms)" using assms(1) by (induction ms) auto
  have 1: "fold (\<lambda>m al. AList.update (?key m) m al) ms [] = ?al"
    using fold_update_fresh [OF d, of "[]"] by simp
  have 2: "fold (\<lambda>m al. AList.update (?key m) m al) xs ?al = ?al"
    by (rule fold_update_same) (use d assms(2) in \<open>auto simp: comp_def\<close>)
  show ?thesis by (simp add: uniqueMatches_def 1 2 comp_def)
qed

lemma standardizeApostrophes_fixed:
  assumes "normalizeText Q = Q"
  shows "standardizeApostrophes Q = Q"
proof -
  have "punct_norm c" if "c \<in> set Q" for c
    using punct_norm_normalizeText [of c Q] that assms by simp
  then show ?thesis
    unfolding standardizeApostrophes_def
    by (intro replace_class_id) (auto simp: punct_norm_def)
qed

lemma searchContent_too_few:
  assumes ok: "segments_ok (sortedSegments body)" and ne: "Q \<noteq> []"
    and n: "1 \<le> length (occurrences (buildFullText (sortedSegments body)) Q)"
    and fixed: "normalizeText Q = Q"
    and k: "int (length (occurrences (buildFullText (sortedSegments body)) Q)) < instance"
  shows "searchContent body Q instance = Some None"
proof -
  let ?segs = "sortedSegments body"
  let ?hits = "occurrences (buildFullText ?segs) Q"
  let ?ms = "map (hitRange ?segs (length Q)) ?hits"
  let ?f = "findValidatedMatches ?segs (buildFullText ?segs) (buildCharToSegmentMap 0 ?segs)"
  have hne: "exactHits (buildFullText ?segs) Q 0 \<noteq> []" using n by (auto simp: occurrences_def)
  have f: "?f Q = Some ?ms"
    using findValidatedMatches_exact [OF ne ok hne] by (simp add: occurrences_def)
  have st: "sorted_wrt (<) (map startIndex ?ms)"
    using hit_starts_strict [OF ok ne, of 0] by (simp add: occurrences_def comp_def)
  then have d: "distinct (map startIndex ?ms)" by (simp add: strict_sorted_iff)
  have "\<exists>xs. variantLoop ?f (searchVariants Q) instance [] = Some (?ms @ xs) \<and> set xs \<subseteq> set ?ms"
  proof (cases "instance \<le> int (length (?ms @ ?ms))")
    case True
    then have "variantLoop ?f (searchVariants Q) instance [] = Some (?ms @ ?ms)"
      unfolding searchVariants_def variantLoop_three fixed standardizeApostrophes_fixed [OF fixed] f
      using k by simp
    then show ?thesis by blast
  next
    case False
    then have "variantLoop ?f (searchVariants Q) instance [] = Some (?ms @ ?ms @ ?ms)"
      unfolding searchVariants_def variantLoop_three fixed standardizeApostrophes_fixed [OF fixed] f
      using k by simp
    moreover have "set (?ms @ ?ms) \<subseteq> set ?ms" by simp
    ultimately show ?thesis by blast
  qed
  then obtain xs where v: "variantLoop ?f (searchVariants Q) instance [] = Some (?ms @ xs)"
    and xs: "set xs \<subseteq> set ?ms" by blast
  have u: "uniqueMatches (?ms @ xs) = ?ms" by (rule uniqueMatches_repeat [OF d xs])
  have "selectInstance (?ms @ xs) instance = None"
    by (rule selectInstance_too_few) (use k in \<open>simp add: u\<close>)
  with v show ?thesis by (simp add: searchContent_def Let_def)
qed

lemma findTextRange_failed:
  "documents_get docs documentId w = (Inl error, w') \<Longrightarrow>
   findTextRange docs documentId textToFind instance w
     = Some (Inl (if err_code error = Some 404
                  then UserError (DocumentNotFoundSearching documentId)
                  else if err_code error = Some 403
                  then UserError (PermissionDeniedSearching documentId)
                  else Error (FailedToRetrieveDoc (messageOrUnknown (err_message error)))), w')"
  by (simp add: findTextRange_def)

lemma findTextRange_no_throw:
  "documents_get docs documentId w = (Inr b, w') \<Longrightarrow>
   findTextRange docs documentId textToFind instance w \<noteq> Some (Inl e, w'')"
  by (auto simp: findTextRange_def split: option.splits)

lemma highlightApostrophePhrase_failed:
  assumes "documents_get docs documentId w = (Inl error, w')"
  shows "highlightApostrophePhrase hexToRgbColor docs documentId textToFind instance styleParams w
    = Some (False, w')"
  unfolding highlightApostrophePhrase_def
  by (simp add: findTextRange_failed [OF assms] split: option.split prod.split)

section \<open>Evaluation of the apostrophe phrase\<close>

lemmas eval_patterns = apostrophePatterns_def matchHere_def afterGroup_def rx_seq_def rx_opt_def
  rx_letter_def rx_class_def is_word_def is_apostrophe_def is_ws_def is_line_terminator_def

lemma that_pattern:
  "firstPatternMatch apostrophePatterns thatQuery = Some (js ''that'', js ''s almost'')"
  by (simp add: thatQuery_def js_def eval_patterns)

lemma hello_pattern: "firstPatternMatch apostrophePatterns (js ''Hello'') = None"
  by (simp add: js_def eval_patterns)

lemma findTextRange_fixedDocs:
  assumes "runs_ok (extractTextFromContent body)" "Q \<noteq> []"
    "occurrences (buildFullText (sortedSegments body)) Q = hits" "1 \<le> k" "k \<le> length hits"
  shows "findTextRange (fixedDocs body) documentId Q (int k) ()
    = Some (Inr (Some (hitRange (sortedSegments body) (length Q) (hits ! (k - 1)))), ())"
  using searchContent_exact [OF sortedSegments_ok [OF assms(1)] assms(2), of k] assms(3-5)
  by (simp add: findTextRange_fetched [OF fixedDocs_get])

lemma findTextRange_fixedDocs_none:
  assumes "Q \<noteq> []" "normalizeText Q = Q" "standardizeApostrophes Q = Q"
    "occurrences (buildFullText (sortedSegments body)) Q = []"
    "occurrences (normalizeText (buildFullText (sortedSegments body))) Q = []"
  shows "findTextRange (fixedDocs body) documentId Q instance () = Some (Inr None, ())"
  using searchContent_none [of Q body "instance"] assms
  by (simp add: findTextRange_fetched [OF fixedDocs_get])

lemma highlightRange_bold:
  "highlightRange noColors (fixedDocs body) documentId (Some r) boldStyle () = (Inr True, ())"
  by (simp add: highlightRange_def buildUpdateTextStyleRequest_def boldStyle_def optField_def
      executeBatchUpdate_def fixedDocs_def Let_def)

lemma that_segments:
  "sortedSegments thatBody = [\<lparr>segText = js ''that is almost'', segStart = 1, segEnd = 15\<rparr>]"
  "sortedSegments thatIsBody = [\<lparr>segText = js ''that is'', segStart = 1, segEnd = 8\<rparr>]"
  by (simp_all add: thatBody_def thatIsBody_def sortedSegments_oneParagraph js_def)

lemma that_runs_ok:
  "runs_ok (extractTextFromContent thatBody)" "runs_ok (extractTextFromContent thatIsBody)"
  by (simp_all add: thatBody_def thatIsBody_def extract_oneParagraph js_def eval_runs)

lemma that_occurrences:
  "occurrences (buildFullText (sortedSegments thatBody)) (js ''that'') = [0]"
  "occurrences (buildFullText (sortedSegments thatBody)) (js ''s almost'') = [6]"
  "occurrences (buildFullText (sortedSegments thatIsBody)) (js ''that'') = [0]"
  "occurrences (buildFullText (sortedSegments thatIsBody)) (js ''s almost'') = []"
  by (simp_all add: that_segments js_def eval_occurrences)

lemma that_ranges:
  "hitRange (sortedSegments thatBody) (length (js ''that'')) 0 = \<lparr>startIndex = 1, endIndex = 5\<rparr>"
  "hitRange (sortedSegments thatBody) (length (js ''s almost'')) 6 = \<lparr>startIndex = 7, endIndex = 15\<rparr>"
  "hitRange (sortedSegments thatIsBody) (length (js ''that'')) 0 = \<lparr>startIndex = 1, endIndex = 5\<rparr>"
  by (simp_all add: that_segments hitRange_def js_def)

lemma that_normal:
  "normalizeText (js ''s almost'') = js ''s almost''"
  "standardizeApostrophes (js ''s almost'') = js ''s almost''"
  "normalizeText (buildFullText (sortedSegments thatIsBody)) = js ''that is''"
  by (simp_all add: that_segments js_def eval_normalize standardizeApostrophes_def)

lemma that_found:
  "findTextRange (fixedDocs thatBody) documentId (js ''that'') 1 ()
     = Some (Inr (Some \<lparr>startIndex = 1, endIndex = 5\<rparr>), ())"
  "findTextRange (fixedDocs thatBody) documentId (js ''s almost'') 1 ()
     = Some (Inr (Some \<lparr>startIndex = 7, endIndex = 15\<rparr>), ())"
  "findTextRange (fixedDocs thatIsBody) documentId (js ''that'') 1 ()
     = Some (Inr (Some \<lparr>startIndex = 1, endIndex = 5\<rparr>), ())"
  using findTextRange_fixedDocs [OF that_runs_ok(1) _ that_occurrences(1), of 1 documentId]
    findTextRange_fixedDocs [OF that_runs_ok(1) _ that_occurrences(2), of 1 documentId]
    findTextRange_fixedDocs [OF that_runs_ok(2) _ that_occurrences(3), of 1 documentId]
  by (simp_all add: that_ranges) (simp_all add: js_def)

lemma that_not_found:
  "findTextRange (fixedDocs thatIsBody) documentId (js ''s almost'') 1 () = Some (Inr None, ())"
proof (rule findTextRange_fixedDocs_none)
  show "js ''s almost'' \<noteq> []" by (simp add: js_def)
  show "occurrences (normalizeText (buildFullText (sortedSegments thatIsBody))) (js ''s almost'') = []"
    unfolding that_normal(3) by (simp add: js_def eval_occurrences)
qed (simp_all add: that_normal that_occurrences)

lemma hello_found:
  "findTextRange (fixedDocs helloBody) documentId (js ''Hello'') 1 ()
     = Some (Inr (Some \<lparr>startIndex = 1, endIndex = 6\<rparr>), ())"
  using findTextRange_fixedDocs [OF hello_runs_ok _ hello_occurrences, of 1 documentId]
  by (simp add: hello_ranges) (simp add: js_def)

section \<open>The claims\<close>

text \<open>
  C7. The normalizer is idempotent: normalizing a normalized string changes nothing, for
  every input string.
\<close>

theorem C7_normalizeText_idempotent: "normalizeText (normalizeText s) = normalizeText s"
  by (rule normalizeText_idem)



text \<open>
  C1, as amended. For every document whose text runs each have exact indices (between 0
  and \<open>2 ^ 53\<close>), span as many indices as their text has code units and do not overlap
  one another, in whatever order the document lists them, and for every non-empty query
  \<open>Q\<close> that occurs exactly once as an exact substring of the flattened text,
  \<open>findTextRange\<close> at instance 1 returns a range, and extracting the text of that range
  from the segments of the document gives \<open>Q\<close> back exactly.
\<close>

theorem C1_unique_occurrence_found:
  assumes "documents_get docs documentId w = (Inr (Some body), w')"
    and "runs_ok (extractTextFromContent body)"
    and "Q \<noteq> []"
    and "length (occurrences (buildFullText (sortedSegments body)) Q) = 1"
  shows "\<exists>r. findTextRange docs documentId Q 1 w = Some (Inr (Some r), w')
    \<and> extractTextFromRange (sortedSegments body) (startIndex r) (endIndex r) = Q"
proof -
  let ?segs = "sortedSegments body"
  let ?hits = "occurrences (buildFullText ?segs) Q"
  let ?r = "hitRange ?segs (length Q) (?hits ! 0)"
  have ok: "segments_ok ?segs" using assms(2) by (rule sortedSegments_ok)
  have "searchContent body Q (int 1) = Some (Some (hitRange ?segs (length Q) (?hits ! (1 - 1))))"
    by (rule searchContent_exact [OF ok assms(3)]) (use assms(4) in simp_all)
  then have 1: "findTextRange docs documentId Q 1 w = Some (Inr (Some ?r), w')"
    using findTextRange_fetched [OF assms(1), of Q 1] by simp
  have "?hits ! 0 \<in> set ?hits" using assms(4) by (cases ?hits) auto
  from hitRange_extract [OF ok assms(3) this] 1 show ?thesis by blast
qed

text \<open>
  The theorem at a document whose runs are listed out of index order, for a query that
  crosses from one run into the other.
\<close>

theorem C1_witness:
  "runs_ok (extractTextFromContent shuffledBody)
   \<and> js ''cd'' \<noteq> []
   \<and> length (occurrences (buildFullText (sortedSegments shuffledBody)) (js ''cd'')) = 1
   \<and> (\<exists>r. findTextRange (fixedDocs shuffledBody) (js ''doc'') (js ''cd'') 1 ()
          = Some (Inr (Some r), ())
        \<and> extractTextFromRange (sortedSegments shuffledBody) (startIndex r) (endIndex r)
          = js ''cd'')"
proof -
  have ne: "js ''cd'' \<noteq> []" by (simp add: js_def)
  have once: "length (occurrences (buildFullText (sortedSegments shuffledBody)) (js ''cd'')) = 1"
    by (simp add: occurrences_shuffledBody)
  from C1_unique_occurrence_found [OF fixedDocs_get runs_ok_shuffledBody ne once]
    runs_ok_shuffledBody ne once
  show ?thesis by blast
qed

text \<open>
  The claim as it stands, for every document, fails where two text runs overlap: the
  query \<open>cd\<close> occurs once in the flattened text \<open>abcd\<close>, the range returned is 2 to 4,
  and the text extracted from that range is \<open>bcd\<close>.
\<close>

theorem C1_counterexample:
  "js ''cd'' \<noteq> []
   \<and> length (occurrences (buildFullText (sortedSegments overlapBody)) (js ''cd'')) = 1
   \<and> findTextRange (fixedDocs overlapBody) (js ''doc'') (js ''cd'') 1 ()
       = Some (Inr (Some \<lparr>startIndex = 2, endIndex = 4\<rparr>), ())
   \<and> extractTextFromRange (sortedSegments overlapBody) 2 4 = js ''bcd''
   \<and> js ''bcd'' \<noteq> js ''cd''"
proof -
  have "js ''cd'' \<noteq> []" "js ''bcd'' \<noteq> js ''cd''"
    by (simp_all add: js_def)
  moreover have "findTextRange (fixedDocs overlapBody) (js ''doc'') (js ''cd'') 1 ()
       = Some (Inr (Some \<lparr>startIndex = 2, endIndex = 4\<rparr>), ())"
    by (simp add: findTextRange_def fixedDocs_def searchContent_overlapBody)
  ultimately show ?thesis
    by (simp add: extract_overlapBody occurrences_overlapBody)
qed

text \<open>
  C3, as amended. For a document whose text runs have exact indices, are as long as
  their text and do not overlap, and a non-empty query \<open>Q\<close> with \<open>N\<close> exact occurrences
  in the flattened text (overlapping ones counted), \<open>findTextRange\<close> at each instance
  \<open>k\<close> from 1 to \<open>N\<close> returns the range of the \<open>k\<close>-th occurrence, and the start
  indices of these ranges increase strictly with \<open>k\<close>. At instance \<open>N + 1\<close> it returns
  \<open>null\<close> when \<open>N\<close> is at least 1 and normalization leaves \<open>Q\<close> unchanged; otherwise the
  searches for the normalized variants may supply further ranges.
\<close>

theorem C3_instances_of_exact_occurrences:
  assumes "documents_get docs documentId w = (Inr (Some body), w')"
    and "runs_ok (extractTextFromContent body)"
    and "Q \<noteq> []"
  shows "(\<forall>k. 1 \<le> k \<and> k \<le> length (occurrences (buildFullText (sortedSegments body)) Q) \<longrightarrow>
            findTextRange docs documentId Q (int k) w
              = Some (Inr (Some (hitRange (sortedSegments body) (length Q)
                  (occurrences (buildFullText (sortedSegments body)) Q ! (k - 1)))), w'))
    \<and> (\<forall>i j. i < j \<and> j < length (occurrences (buildFullText (sortedSegments body)) Q) \<longrightarrow>
            startIndex (hitRange (sortedSegments body) (length Q)
              (occurrences (buildFullText (sortedSegments body)) Q ! i))
            < startIndex (hitRange (sortedSegments body) (length Q)
              (occurrences (buildFullText (sortedSegments body)) Q ! j)))
    \<and> (1 \<le> length (occurrences (buildFullText (sortedSegments body)) Q) \<and> normalizeText Q = Q \<longrightarrow>
            findTextRange docs documentId Q
              (int (length (occurrences (buildFullText (sortedSegments body)) Q)) + 1) w
              = Some (Inr None, w'))"
proof (intro conjI allI impI)
  let ?segs = "sortedSegments body"
  let ?hits = "occurrences (buildFullText ?segs) Q"
  have ok: "segments_ok ?segs" using assms(2) by (rule sortedSegments_ok)
  fix k assume "1 \<le> k \<and> k \<le> length ?hits"
  then have "searchContent body Q (int k) = Some (Some (hitRange ?segs (length Q) (?hits ! (k - 1))))"
    using searchContent_exact [OF ok assms(3)] by blast
  then show "findTextRange docs documentId Q (int k) w
      = Some (Inr (Some (hitRange ?segs (length Q) (?hits ! (k - 1)))), w')"
    using findTextRange_fetched [OF assms(1), of Q "int k"] by simp
next
  let ?segs = "sortedSegments body"
  let ?hits = "occurrences (buildFullText ?segs) Q"
  have ok: "segments_ok ?segs" using assms(2) by (rule sortedSegments_ok)
  fix i j assume ij: "i < j \<and> j < length ?hits"
  have "sorted_wrt (<) (map (\<lambda>k. startIndex (hitRange ?segs (length Q) k)) ?hits)"
    using hit_starts_strict [OF ok assms(3), of 0] by (simp add: occurrences_def)
  then have "sorted_wrt (\<lambda>a b. startIndex (hitRange ?segs (length Q) a)
      < startIndex (hitRange ?segs (length Q) b)) ?hits"
    by (simp add: sorted_wrt_map)
  from sorted_wrt_nth_less [OF this, of i j] ij
  show "startIndex (hitRange ?segs (length Q) (?hits ! i))
      < startIndex (hitRange ?segs (length Q) (?hits ! j))" by simp
next
  let ?segs = "sortedSegments body"
  let ?hits = "occurrences (buildFullText ?segs) Q"
  have ok: "segments_ok ?segs" using assms(2) by (rule sortedSegments_ok)
  assume "1 \<le> length ?hits \<and> normalizeText Q = Q"
  then have "searchContent body Q (int (length ?hits) + 1) = Some None"
    using searchContent_beyond [OF ok assms(3)] by blast
  then show "findTextRange docs documentId Q (int (length ?hits) + 1) w = Some (Inr None, w')"
    using findTextRange_fetched [OF assms(1), of Q "int (length ?hits) + 1"] by simp
qed

theorem C3_witness:
  "runs_ok (extractTextFromContent helloBody)
   \<and> js ''Hello'' \<noteq> []
   \<and> occurrences (buildFullText (sortedSegments helloBody)) (js ''Hello'') = [0, 13]
   \<and> findTextRange (fixedDocs helloBody) (js ''doc'') (js ''Hello'') 1 ()
        = Some (Inr (Some \<lparr>startIndex = 1, endIndex = 6\<rparr>), ())
   \<and> findTextRange (fixedDocs helloBody) (js ''doc'') (js ''Hello'') 2 ()
        = Some (Inr (Some \<lparr>startIndex = 14, endIndex = 19\<rparr>), ())
   \<and> findTextRange (fixedDocs helloBody) (js ''doc'') (js ''Hello'') 3 () = Some (Inr None, ())"
proof -
  let ?Q = "js ''Hello''"
  have ne: "?Q \<noteq> []" by (simp add: js_def)
  note t = C3_instances_of_exact_occurrences [OF fixedDocs_get hello_runs_ok ne,
      of "js ''doc''" "()", unfolded hello_occurrences]
  from t have "findTextRange (fixedDocs helloBody) (js ''doc'') ?Q (int 1) ()
      = Some (Inr (Some (hitRange (sortedSegments helloBody) (length ?Q) ([0, 13] ! (1 - 1)))), ())"
    by (elim conjE allE [of _ 1]) simp
  then have 1: "findTextRange (fixedDocs helloBody) (js ''doc'') ?Q 1 ()
      = Some (Inr (Some \<lparr>startIndex = 1, endIndex = 6\<rparr>), ())"
    by (simp add: hello_ranges)
  from t have "findTextRange (fixedDocs helloBody) (js ''doc'') ?Q (int 2) ()
      = Some (Inr (Some (hitRange (sortedSegments helloBody) (length ?Q) ([0, 13] ! (2 - 1)))), ())"
    by (elim conjE allE [of _ 2]) simp
  then have 2: "findTextRange (fixedDocs helloBody) (js ''doc'') ?Q 2 ()
      = Some (Inr (Some \<lparr>startIndex = 14, endIndex = 19\<rparr>), ())"
    by (simp add: hello_ranges)
  from t hello_fixed have 3: "findTextRange (fixedDocs helloBody) (js ''doc'') ?Q 3 () = Some (Inr None, ())"
    by simp
  from hello_runs_ok ne hello_occurrences 1 2 3 show ?thesis by blast
qed

text \<open>
  The claim as it stands fails at instance \<open>N + 1\<close>: the query written with U+2019
  occurs once in the text, and instance 2 returns the range of the word written with
  the straight apostrophe, which the search for the normalized variant finds.
\<close>

theorem C3_counterexample:
  "length (occurrences (buildFullText (sortedSegments apostropheBody)) curlyQuery) = 1
   \<and> findTextRange (fixedDocs apostropheBody) (js ''doc'') curlyQuery 2 ()
       = Some (Inr (Some \<lparr>startIndex = 6, endIndex = 10\<rparr>), ())"
proof -
  have "searchContent apostropheBody curlyQuery 2 = Some (Some \<lparr>startIndex = 6, endIndex = 10\<rparr>)"
    unfolding searchContent_def Let_def searchVariants_def variantLoop_three normalizeText_curlyQuery
    by (simp add: apostrophe_matches selectInstance_pair)
  then show ?thesis
    by (simp add: findTextRange_def fixedDocs_def apostrophe_occurrences)
qed

text \<open>
  C6, as amended. For every non-empty query, the exact pass of the matcher on the
  flattened text of a document returns one range for every occurrence of the query, in
  the order of the offsets, the scan restarting one position after each hit; so
  overlapping occurrences are reported: the query \<open>aa\<close> occurs in \<open>aaa\<close> at the offsets 0
  and 1.
\<close>

theorem C6_exact_pass_every_occurrence:
  assumes "searchText \<noteq> []"
  shows "exactLoop (buildFullText segs) (buildCharToSegmentMap 0 segs) searchText 0 []
      = Some (map (\<lambda>k. \<lparr>startIndex = originalIndex (buildCharToSegmentMap 0 segs ! k),
                           endIndex = js_add (originalIndex
                             (buildCharToSegmentMap 0 segs ! (k + length searchText - 1))) 1\<rparr>)
          (occurrences (buildFullText segs) searchText))
    \<and> set (occurrences (buildFullText segs) searchText)
        = {k. occurs_at (buildFullText segs) searchText k}
    \<and> occurrences (js ''aaa'') (js ''aa'') = [0, 1]"
proof -
  have "occurrences (js ''aaa'') (js ''aa'') = [0, 1]"
    by (simp add: js_def eval_occurrences)
  with exactLoop_built [OF assms, of segs] occurrences_set [OF assms, of "buildFullText segs"]
  show ?thesis by simp
qed

text \<open>The two overlapping matches of \<open>aa\<close> in a paragraph \<open>aaa\<close> that starts at index 1.\<close>

theorem C6_witness:
  "js ''aa'' \<noteq> []
   \<and> buildFullText (sortedSegments (oneParagraph (js ''aaa''))) = js ''aaa''
   \<and> exactLoop (buildFullText (sortedSegments (oneParagraph (js ''aaa''))))
        (buildCharToSegmentMap 0 (sortedSegments (oneParagraph (js ''aaa'')))) (js ''aa'') 0 []
      = Some [\<lparr>startIndex = 1, endIndex = 3\<rparr>, \<lparr>startIndex = 2, endIndex = 4\<rparr>]"
proof -
  have ne: "js ''aa'' \<noteq> []" "js ''aaa'' \<noteq> []" by (simp_all add: js_def)
  have segs: "sortedSegments (oneParagraph (js ''aaa''))
      = [\<lparr>segText = js ''aaa'', segStart = 1, segEnd = 4\<rparr>]"
    using sortedSegments_oneParagraph [OF ne(2)] by (simp add: js_def)
  have full: "buildFullText (sortedSegments (oneParagraph (js ''aaa''))) = js ''aaa''"
    by (simp add: segs)
  have occ: "occurrences (js ''aaa'') (js ''aa'') = [0, 1]"
    by (simp add: js_def eval_occurrences)
  note t = C6_exact_pass_every_occurrence [OF ne(1), of "sortedSegments (oneParagraph (js ''aaa''))",
      THEN conjunct1, unfolded full occ]
  have "exactLoop (js ''aaa'')
        (buildCharToSegmentMap 0 (sortedSegments (oneParagraph (js ''aaa'')))) (js ''aa'') 0 []
      = Some [\<lparr>startIndex = 1, endIndex = 3\<rparr>, \<lparr>startIndex = 2, endIndex = 4\<rparr>]"
    by (subst t, unfold list.map segs) (simp add: js_def eval_double)
  then have "exactLoop (buildFullText (sortedSegments (oneParagraph (js ''aaa''))))
        (buildCharToSegmentMap 0 (sortedSegments (oneParagraph (js ''aaa'')))) (js ''aa'') 0 []
      = Some [\<lparr>startIndex = 1, endIndex = 3\<rparr>, \<lparr>startIndex = 2, endIndex = 4\<rparr>]"
    unfolding full .
  with ne(1) full show ?thesis by blast
qed

text \<open>
  The claim as it stands, for every query, fails at the empty query: \<open>indexOf\<close> then
  never answers \<open>-1\<close> and the exact pass does not return.
\<close>

theorem C6_counterexample:
  "exactLoop (js ''aaa'') (buildCharToSegmentMap 0 (sortedSegments (oneParagraph (js ''aaa'')))) [] 0 []
     = None"
  by (rule exactLoop_empty_diverges)

text \<open>
  C10. When \<open>textToFind\<close> and its normalized form are both non-empty, \<open>findTextRange\<close>
  returns, whatever the client answers; and each scanning loop it runs, for each of the
  three search variants and from every search position, stops after recording at most
  as many matches as the scanned text has positions.
\<close>

theorem C10_scans_terminate:
  assumes "textToFind \<noteq> []" "normalizeText textToFind \<noteq> []"
  shows "(\<exists>r. findTextRange docs documentId textToFind instance w = Some r)
    \<and> (\<forall>v \<in> set (searchVariants textToFind). \<forall>fullText cmap searchIndex matches.
          \<exists>ms. exactLoop fullText cmap v searchIndex matches = Some ms
            \<and> length ms \<le> length matches + length fullText)
    \<and> (\<forall>v \<in> set (searchVariants textToFind). \<forall>segs fullText cmap normalizedFullText searchIndex matches.
          \<exists>ms. normalizedLoop segs fullText cmap normalizedFullText (normalizeText v) searchIndex matches
              = Some ms
            \<and> length ms \<le> length matches + length normalizedFullText)"
proof -
  have v: "v \<noteq> [] \<and> normalizeText v \<noteq> []" if "v \<in> set (searchVariants textToFind)" for v
  proof -
    from that consider "v = textToFind" | "v = normalizeText textToFind"
      | "v = standardizeApostrophes textToFind" by (auto simp: searchVariants_def)
    then show ?thesis
    proof cases
      case 1
      with assms show ?thesis by simp
    next
      case 2
      with assms show ?thesis by (simp add: normalizeText_idem)
    next
      case 3
      have "standardizeApostrophes textToFind \<noteq> []"
        using assms(1) by (simp add: standardizeApostrophes_def replace_class_def)
      with 3 assms(2) show ?thesis by (simp add: normalizeText_standardizeApostrophes)
    qed
  qed
  have e: "\<exists>ms. exactLoop fullText cmap pat i acc = Some ms \<and> length ms \<le> length acc + length fullText"
    if "pat \<noteq> []" for fullText cmap pat i acc
    using that length_hitRanges [of "\<lambda>k. mappedRange cmap (int k) (int k + int (length pat) - 1)"
        "exactHits fullText pat i"] length_exactHits [OF that, of fullText i]
    by (simp add: exactLoop_nonempty)
  have n: "\<exists>ms. normalizedLoop segs fullText cmap s pat i acc = Some ms \<and> length ms \<le> length acc + length s"
    if "pat \<noteq> []" for segs fullText cmap s pat i acc
    using that length_hitRanges [of "validatedRange segs fullText cmap pat" "exactHits s pat i"]
      length_exactHits [OF that, of s i]
    by (simp add: normalizedLoop_nonempty)
  show ?thesis
  proof (intro conjI ballI allI)
    show "\<exists>r. findTextRange docs documentId textToFind instance w = Some r"
      by (rule findTextRange_total [OF assms])
  next
    fix x fullText cmap searchIndex matches
    assume "x \<in> set (searchVariants textToFind)"
    then have "x \<noteq> []" using v by blast
    then show "\<exists>ms. exactLoop fullText cmap x searchIndex matches = Some ms
        \<and> length ms \<le> length matches + length fullText"
      by (rule e)
  next
    fix x segs fullText cmap normalizedFullText searchIndex matches
    assume "x \<in> set (searchVariants textToFind)"
    then have "normalizeText x \<noteq> []" using v by blast
    then show "\<exists>ms. normalizedLoop segs fullText cmap normalizedFullText (normalizeText x)
          searchIndex matches = Some ms
        \<and> length ms \<le> length matches + length normalizedFullText"
      by (rule n)
  qed
qed

theorem C10_witness:
  "js ''cd'' \<noteq> [] \<and> normalizeText (js ''cd'') \<noteq> []
   \<and> (\<exists>r. findTextRange (fixedDocs shuffledBody) (js ''doc'') (js ''cd'') 1 () = Some r)"
proof -
  have ne: "js ''cd'' \<noteq> []" "normalizeText (js ''cd'') \<noteq> []"
    by (simp_all add: js_def eval_normalize)
  from C10_scans_terminate [OF ne, THEN conjunct1, of "fixedDocs shuffledBody" "js ''doc''" 1 "()"] ne
  show ?thesis by simp
qed


text \<open>
  C2. When the normalized pass returns, its matches are exactly the candidates that
  pass the validation, in the order of the hits; for each range returned, the text
  extracted again from the segments and normalized again is the normalized query; and
  a candidate whose extracted text does not normalize to the query gives no match and
  no error.
\<close>

theorem C2_normalized_matches_validated:
  assumes "normalizedLoop textSegments fullText cmap normalizedFullText normalizedSearchText 0 []
      = Some matches"
  shows "matches = hitRanges (validatedRange textSegments fullText cmap normalizedSearchText)
        (occurrences normalizedFullText normalizedSearchText)
    \<and> (\<forall>r \<in> set matches.
          normalizeText (extractTextFromRange textSegments (startIndex r) (endIndex r))
            = normalizedSearchText)
    \<and> (\<forall>k r. mappedRange cmap (int (walkToFound fullText k 0 0))
            (int (walkToEnd fullText (int (length normalizedSearchText))
               (walkToFound fullText k 0 0)) - 1) = Some r
          \<and> normalizeText (extractTextFromRange textSegments (startIndex r) (endIndex r))
            \<noteq> normalizedSearchText
          \<longrightarrow> validatedRange textSegments fullText cmap normalizedSearchText k = None)"
proof (intro conjI ballI allI impI)
  show m: "matches = hitRanges (validatedRange textSegments fullText cmap normalizedSearchText)
        (occurrences normalizedFullText normalizedSearchText)"
    using normalizedLoop_result [OF assms] by (simp add: occurrences_def)
  fix r assume "r \<in> set matches"
  then obtain k where "validatedRange textSegments fullText cmap normalizedSearchText k = Some r"
    using m hitRanges_member by metis
  then show "normalizeText (extractTextFromRange textSegments (startIndex r) (endIndex r))
      = normalizedSearchText"
    by (rule validatedRange_valid)
next
  fix k r
  assume "mappedRange cmap (int (walkToFound fullText k 0 0))
            (int (walkToEnd fullText (int (length normalizedSearchText))
               (walkToFound fullText k 0 0)) - 1) = Some r
          \<and> normalizeText (extractTextFromRange textSegments (startIndex r) (endIndex r))
            \<noteq> normalizedSearchText"
  then show "validatedRange textSegments fullText cmap normalizedSearchText k = None"
    by (simp add: validatedRange_def Let_def)
qed

text \<open>
  The scenario of the apostrophes: the document has \<open>don't\<close> with U+2019, the query has
  the straight apostrophe, and the normalized pass returns the range 1 to 6.
\<close>

theorem C2_witness:
  "normalizedLoop (sortedSegments dontBody) (buildFullText (sortedSegments dontBody))
     (buildCharToSegmentMap 0 (sortedSegments dontBody))
     (normalizeText (buildFullText (sortedSegments dontBody))) (normalizeText dontQuery) 0 []
     = Some [\<lparr>startIndex = 1, endIndex = 6\<rparr>]
   \<and> normalizeText (extractTextFromRange (sortedSegments dontBody) 1 6) = normalizeText dontQuery"
proof -
  from C2_normalized_matches_validated [OF dont_loop]
  have "\<forall>r \<in> set [\<lparr>startIndex = 1, endIndex = 6\<rparr>].
      normalizeText (extractTextFromRange (sortedSegments dontBody) (startIndex r) (endIndex r))
        = normalizeText dontQuery"
    by (elim conjE)
  then show ?thesis using dont_loop by simp
qed


subsection \<open>C8: the paragraph around an index\<close>

text \<open>
  C8. For every document that the client returns and every index \<open>i\<close>,
  \<open>getParagraphRange\<close> returns the bounds of the first paragraph element whose half-open
  range contains \<open>i\<close>, in the order of a traversal that enters the cells of a table when
  \<open>i\<close> lies in the range of the table element and that element is not a paragraph. A range
  that is returned is the range of a paragraph element of the tree and contains \<open>i\<close>;
  the result is null when no paragraph element of the tree contains \<open>i\<close>. In a tree in
  which the range of each table holds the paragraphs of its cells, the result is the first
  of all the paragraph elements of the tree, in document order, that contain \<open>i\<close>:
  an index inside the paragraph of a table cell gives the range of that paragraph.
\<close>

theorem C8_enclosing_paragraph:
  assumes "documents_get docs documentId w = (Inr (Some body), w')"
  shows "getParagraphRange docs documentId indexWithin w
      = (Inr (first_of (enclosingParagraphs indexWithin body)), w')
    \<and> (\<forall>r. getParagraphRange docs documentId indexWithin w = (Inr (Some r), w') \<longrightarrow>
          r \<in> set (paragraphRanges body) \<and> contains_index indexWithin r)
    \<and> ((\<forall>r \<in> set (paragraphRanges body). \<not> contains_index indexWithin r) \<longrightarrow>
          getParagraphRange docs documentId indexWithin w = (Inr None, w'))
    \<and> (well_nested body \<longrightarrow>
          getParagraphRange docs documentId indexWithin w
            = (Inr (first_of (filter (contains_index indexWithin) (paragraphRanges body))), w'))"
proof -
  note g = getParagraphRange_fetched [OF assms, of indexWithin]
  have 1: "getParagraphRange docs documentId indexWithin w
      = (Inr (first_of (enclosingParagraphs indexWithin body)), w')"
    unfolding g by (simp add: findParagraph_first(1))
  have 2: "r \<in> set (paragraphRanges body) \<and> contains_index indexWithin r"
    if "getParagraphRange docs documentId indexWithin w = (Inr (Some r), w')" for r
    using that findParagraph_sound [of indexWithin body r] unfolding g by simp
  have 3: "getParagraphRange docs documentId indexWithin w = (Inr None, w')"
    if "\<forall>r \<in> set (paragraphRanges body). \<not> contains_index indexWithin r"
  proof (cases "findParagraphInContent indexWithin body")
    case None
    then show ?thesis unfolding g by simp
  next
    case (Some r)
    from findParagraph_sound [OF this] that show ?thesis by blast
  qed
  have 4: "getParagraphRange docs documentId indexWithin w
      = (Inr (first_of (filter (contains_index indexWithin) (paragraphRanges body))), w')"
    if "well_nested body"
    unfolding g findParagraph_first(1) enclosing_first_nested(1) [OF that] ..
  from 1 2 3 4 show ?thesis by blast
qed

theorem C8_witness:
  "well_nested tableBody
   \<and> getParagraphRange (fixedDocs tableBody) (js ''doc'') 7 ()
       = (Inr (Some \<lparr>startIndex = 5, endIndex = 10\<rparr>), ())
   \<and> getParagraphRange (fixedDocs tableBody) (js ''doc'') 12 () = (Inr None, ())"
proof -
  have wn: "well_nested tableBody" by (simp add: tableBody_def)
  have t: "getParagraphRange (fixedDocs tableBody) (js ''doc'') i ()
        = (Inr (first_of (enclosingParagraphs i tableBody)), ())
      \<and> (well_nested tableBody \<longrightarrow>
            getParagraphRange (fixedDocs tableBody) (js ''doc'') i ()
              = (Inr (first_of (filter (contains_index i) (paragraphRanges tableBody))), ()))" for i
    using C8_enclosing_paragraph [of "fixedDocs tableBody" "js ''doc''" "()" tableBody "()" i,
        OF fixedDocs_get] by blast
  have "getParagraphRange (fixedDocs tableBody) (js ''doc'') 7 ()
      = (Inr (first_of (enclosingParagraphs 7 tableBody)), ())"
    using t [of 7] by (rule conjunct1)
  then have 1: "getParagraphRange (fixedDocs tableBody) (js ''doc'') 7 ()
       = (Inr (Some \<lparr>startIndex = 5, endIndex = 10\<rparr>), ())"
    by (simp add: tableBody_def)
  have "getParagraphRange (fixedDocs tableBody) (js ''doc'') 12 ()
      = (Inr (first_of (filter (contains_index 12) (paragraphRanges tableBody))), ())"
    using t [of 12] wn by blast
  then have 2: "getParagraphRange (fixedDocs tableBody) (js ''doc'') 12 () = (Inr None, ())"
    by (simp add: tableBody_def contains_index_def)
  from wn 1 2 show ?thesis by blast
qed

end
